theory Spec2Isabelle
  imports Main "HOL-Library.Multiset"
begin

section \<open>Exceptions, items and the paginator object\<close>

text \<open>
  A Python exception is a value: its class name and its message. The only exception the
  paginator module raises itself is \<^verbatim>\<open>Exception("No more pages")\<close>, an instance of the
  base class; every other exception comes out of the fetch function.
\<close>

datatype exn = Exn (exn_class: string) (exn_msg: string)

definition no_more_pages :: exn where
  "no_more_pages = Exn ''Exception'' ''No more pages''"

text \<open>
  \<^verbatim>\<open>class IDModel(Protocol): id: int\<close>. The protocol is structural, so an item is any
  extension of the record below (the field is called \<open>id'\<close> since \<open>id\<close> is the identity
  of HOL).
\<close>

record idmodel =
  id' :: int

text \<open>
  \<^verbatim>\<open>IDPagintor\<close> has the instance fields \<open>limit\<close> and \<open>end_id\<close> (both
  \<^verbatim>\<open>Optional[int]\<close>) and the class constant \<open>page_size = 20\<close>;
  \<^verbatim>\<open>AuthkeyPaginator\<close> adds \<open>authkey\<close>. Subclasses are record extensions, and the
  methods are defined on the record scheme, as inherited methods are.
\<close>

record idpaginator =
  limit :: "int option"
  end_id :: "int option"

record authkey_paginator = idpaginator +
  authkey :: "string option"

definition page_size :: nat where
  "page_size = 20"

definition IDPagintor :: "int option \<Rightarrow> int \<Rightarrow> idpaginator" where
  "IDPagintor lim e = \<lparr>limit = lim, end_id = Some e\<rparr>"

definition AuthkeyPaginator :: "string option \<Rightarrow> int option \<Rightarrow> int \<Rightarrow> authkey_paginator" where
  "AuthkeyPaginator key lim e = \<lparr>limit = lim, end_id = Some e, authkey = key\<rparr>"

definition exhausted :: "'z idpaginator_scheme \<Rightarrow> bool" where
  "exhausted p = (end_id p = None)"

text \<open>
  The abstract method \<^verbatim>\<open>function(self, end_id)\<close> is a parameter. It is awaited, so it
  may do anything to the world outside the paginator: it takes the cursor and a world
  \<open>'w\<close> and gives back the page, or the exception it raised, and the new world.
\<close>

type_synonym ('a, 'w) fetch = "int \<Rightarrow> 'w \<Rightarrow> (exn + 'a list) \<times> 'w"

text \<open>
  An instrumented fetch function, which appends every cursor it is called with to a log
  kept beside the world. It is used to count calls.
\<close>

definition logged :: "('a, 'w) fetch \<Rightarrow> ('a, 'w \<times> int list) fetch" where
  "logged fetch c wl = (case fetch c (fst wl) of (r, w') \<Rightarrow> (r, (w', snd wl @ [c])))"

section \<open>\<^verbatim>\<open>IDPagintor.next_page\<close>\<close>

definition next_page ::
  "('m idmodel_scheme, 'w) fetch \<Rightarrow> 'z idpaginator_scheme \<Rightarrow> 'w \<Rightarrow>
     (exn + 'm idmodel_scheme list) \<times> 'z idpaginator_scheme \<times> 'w" where
  "next_page fetch p w =
     (case end_id p of
        None \<Rightarrow> (Inl no_more_pages, p, w)
      | Some c \<Rightarrow>
          (case fetch c w of
             (Inl e, w') \<Rightarrow> (Inl e, p, w')
           | (Inr data, w') \<Rightarrow>
               if length data < page_size
               then (Inr data, p\<lparr>end_id := None\<rparr>, w')
               else (Inr data, p\<lparr>end_id := Some (id' (last data))\<rparr>, w')))"

section \<open>Asynchronous generators as pull machines\<close>

text \<open>
  An asynchronous generator is a state and a function that resumes it once: the generator
  yields an item, returns, or lets an exception escape.
\<close>

datatype ('a, 's) step = Yield 'a 's | Stop 's | Raise exn 's

text \<open>
  \<^verbatim>\<open>IDPagintor._iter\<close>: the state is the paginator, the world and the items of the
  current page that the inner \<^verbatim>\<open>for\<close> has not yielded yet.
\<close>

function iter ::
  "('m idmodel_scheme, 'w) fetch \<Rightarrow> 'z idpaginator_scheme \<times> 'w \<times> 'm idmodel_scheme list \<Rightarrow>
     ('m idmodel_scheme, 'z idpaginator_scheme \<times> 'w \<times> 'm idmodel_scheme list) step" where
  "iter fetch (p, w, buf) =
     (case buf of
        x # rest \<Rightarrow> Yield x (p, w, rest)
      | [] \<Rightarrow>
          if exhausted p then Stop (p, w, [])
          else (case next_page fetch p w of
                  (Inl e, p', w') \<Rightarrow> Raise e (p', w', [])
                | (Inr page, p', w') \<Rightarrow> iter fetch (p', w', page)))"
  by pat_completeness auto

termination iter
proof (relation "measure (\<lambda>(fetch, p, w, buf). if buf = [] \<and> \<not> exhausted p then 1 else 0)")
  show "wf (measure (\<lambda>(fetch, p, w, buf). if buf = [] \<and> \<not> exhausted p then 1 else (0::nat)))"
    by simp
next
  fix fetch :: "('m idmodel_scheme, 'w) fetch"
    and p :: "'z idpaginator_scheme" and w :: 'w and buf :: "'m idmodel_scheme list"
    and x y page and p' :: "'z idpaginator_scheme" and w' :: 'w and xa ya
  assume "buf = []" "\<not> exhausted p" "(x, y) = next_page fetch p w" "x = Inr page"
    "(xa, ya) = y"
  then have "next_page fetch p w = (Inr page, xa, ya)"
    by simp
  then have "page = [] \<longrightarrow> exhausted xa"
    by (auto simp: next_page_def exhausted_def page_size_def
          split: option.splits prod.splits sum.splits if_splits)
  then show "((fetch, xa, ya, page), fetch, p, w, buf)
      \<in> measure (\<lambda>(fetch, p, w, buf). if buf = [] \<and> \<not> exhausted p then 1 else 0)"
    using \<open>buf = []\<close> \<open>\<not> exhausted p\<close> by simp
qed

text \<open>\<^verbatim>\<open>aenumerate(iterable, start)\<close>: the state is the counter \<open>i\<close> and the inner state.\<close>

fun aenumerate :: "('s \<Rightarrow> ('a, 's) step) \<Rightarrow> int \<times> 's \<Rightarrow> (int \<times> 'a, int \<times> 's) step" where
  "aenumerate iterable (i, s) =
     (case iterable s of
        Yield x s' \<Rightarrow> Yield (i, x) (i + 1, s')
      | Stop s' \<Rightarrow> Stop (i, s')
      | Raise e s' \<Rightarrow> Raise e (i, s'))"

text \<open>
  \<^verbatim>\<open>if stop and i >= stop\<close>: Python tests the truth value of \<open>stop\<close> first, and both
  \<^verbatim>\<open>None\<close> and \<open>0\<close> are false.
\<close>

definition stop_reached :: "int option \<Rightarrow> int \<Rightarrow> bool" where
  "stop_reached stop i = (case stop of None \<Rightarrow> False | Some n \<Rightarrow> n \<noteq> 0 \<and> i \<ge> n)"

text \<open>
  \<^verbatim>\<open>aislice(iterable, stop)\<close>. The generator is suspended at its \<^verbatim>\<open>yield x\<close>; when it is
  resumed it first runs the test that follows the \<^verbatim>\<open>yield\<close>, on the index \<open>i\<close> of the
  item it yielded last, and only then asks \<^verbatim>\<open>aenumerate\<close> for the next item. The state
  is that index (\<open>None\<close> before the first item) and the state of
  \<^verbatim>\<open>aenumerate(iterable, start=1)\<close>.
\<close>

fun aislice ::
  "('s \<Rightarrow> ('a, 's) step) \<Rightarrow> int option \<Rightarrow> int option \<times> int \<times> 's \<Rightarrow>
     ('a, int option \<times> int \<times> 's) step" where
  "aislice iterable stop (yielded, es) =
     (if (case yielded of None \<Rightarrow> False | Some i \<Rightarrow> stop_reached stop i)
      then Stop (yielded, es)
      else (case aenumerate iterable es of
              Yield (i, x) es' \<Rightarrow> Yield x (Some i, es')
            | Stop es' \<Rightarrow> Stop (yielded, es')
            | Raise e es' \<Rightarrow> Raise e (yielded, es')))"

text \<open>
  \<^verbatim>\<open>[item async for item in it]\<close>: resume the generator until it returns. The loop need
  not end (a source may serve full pages for ever), so the result is an option and
  \<open>None\<close> is a comprehension that never returns. An exception discards the list.
\<close>

partial_function (option) drain ::
  "('s \<Rightarrow> ('a, 's) step) \<Rightarrow> 's \<Rightarrow> ((exn + 'a list) \<times> 's) option" where
  "drain nxt s =
     (case nxt s of
        Stop s' \<Rightarrow> Some (Inr [], s')
      | Raise e s' \<Rightarrow> Some (Inl e, s')
      | Yield x s' \<Rightarrow>
          Option.bind (drain nxt s')
            (\<lambda>(r, s''). Some (case r of Inl e \<Rightarrow> Inl e | Inr xs \<Rightarrow> Inr (x # xs), s'')))"

text \<open>
  \<^verbatim>\<open>IDPagintor.__aiter__\<close> starts \<^verbatim>\<open>aislice(self._iter(), self.limit)\<close>, and
  \<^verbatim>\<open>IDPagintor.flatten\<close> collects it. The result is the list or the exception, with the
  paginator and the world as the call leaves them.
\<close>

definition aiter ::
  "'z idpaginator_scheme \<Rightarrow> 'w \<Rightarrow>
     int option \<times> int \<times> 'z idpaginator_scheme \<times> 'w \<times> 'm idmodel_scheme list" where
  "aiter p w = (None, 1, (p, w, []))"

definition flatten ::
  "('m idmodel_scheme, 'w) fetch \<Rightarrow> 'z idpaginator_scheme \<Rightarrow> 'w \<Rightarrow>
     ((exn + 'm idmodel_scheme list) \<times> 'z idpaginator_scheme \<times> 'w) option" where
  "flatten fetch p w =
     map_option (\<lambda>(r, (yielded, i, (p', w', buf))). (r, p', w'))
       (drain (aislice (iter fetch) (limit p)) (aiter p w))"

text \<open>The state a generator is left in by one resumption.\<close>

fun step_state :: "('a, 's) step \<Rightarrow> 's" where
  "step_state (Yield x s) = s"
| "step_state (Stop s) = s"
| "step_state (Raise e s) = s"

section \<open>The merged paginator, eager mode\<close>

text \<open>
  \<^verbatim>\<open>heapq.merge(*lists, key=key)\<close> of the standard library keeps one entry per list that
  is not used up, ordered by the key of the list's head and then by the position of the
  list among the arguments; it yields the head of the least entry and advances that list.
  \<open>min_head\<close> is the position of the least entry.
\<close>

fun min_head :: "('a \<Rightarrow> 'k::linorder) \<Rightarrow> 'a list list \<Rightarrow> nat option" where
  "min_head key [] = None"
| "min_head key ([] # ls) = map_option Suc (min_head key ls)"
| "min_head key ((x # xs) # ls) =
     (case min_head key ls of
        None \<Rightarrow> Some 0
      | Some j \<Rightarrow> if key (hd (ls ! j)) < key x then Some (Suc j) else Some 0)"

function heapq_merge :: "('a \<Rightarrow> 'k::linorder) \<Rightarrow> 'a list list \<Rightarrow> 'a list" where
  "heapq_merge key ls =
     (case min_head key ls of
        None \<Rightarrow> []
      | Some i \<Rightarrow> hd (ls ! i) # heapq_merge key (ls[i := tl (ls ! i)]))"
  by pat_completeness auto
termination
proof (relation "measure (\<lambda>(key, ls). sum_list (map length ls))")
  show "wf (measure (\<lambda>(key :: 'a \<Rightarrow> 'k::linorder, ls). sum_list (map length ls)))"
    by simp
next
  fix key :: "'a \<Rightarrow> 'k::linorder" and ls :: "'a list list" and i
  assume m: "min_head key ls = Some i"
  have "i < length ks \<and> ks ! i \<noteq> []" if "min_head key ks = Some i" for ks i
    using that
    by (induction key ks arbitrary: i rule: min_head.induct) (auto split: option.splits if_splits)
  from this[OF m] have i: "i < length ls" and ne: "ls ! i \<noteq> []"
    by simp_all
  have "sum_list (map length (ls[i := tl (ls ! i)]))
          = sum_list (map length ls) + length (tl (ls ! i)) - length (ls ! i)"
    using i by (simp add: map_update sum_list_update)
  moreover have "length (ls ! i) \<le> sum_list (map length ls)"
    using i by (simp add: member_le_sum_list)
  moreover have "length (tl (ls ! i)) < length (ls ! i)"
    using ne by (cases "ls ! i") simp_all
  ultimately show "((key, ls[i := tl (ls ! i)]), key, ls)
      \<in> measure (\<lambda>(key, ls). sum_list (map length ls))"
    by simp
qed

text \<open>
  \<^verbatim>\<open>xs[: stop]\<close>: all of \<open>xs\<close> for \<^verbatim>\<open>None\<close>, the first \<open>stop\<close> items for a
  \<open>stop\<close> that is not negative, and all but the last \<open>- stop\<close> items for a negative one.
\<close>

definition slice_to :: "int option \<Rightarrow> 'a list \<Rightarrow> 'a list" where
  "slice_to stop xs =
     (case stop of
        None \<Rightarrow> xs
      | Some n \<Rightarrow> if n < 0 then take (length xs - nat (- n)) xs else take (nat n) xs)"

text \<open>
  \<^verbatim>\<open>await asyncio.gather(*coros)\<close>. Each coroutine has an outcome: a value, an exception,
  or none when it never finishes. \<open>gather\<close> raises as soon as one coroutine raises,
  whatever the others do, and otherwise returns the values in the order of the coroutines
  once all have finished. When several coroutines raise, the one that raises first in time
  wins; the model takes the first in the order of the arguments.
\<close>

fun first_error :: "(exn + 'a) option list \<Rightarrow> exn option" where
  "first_error [] = None"
| "first_error (Some (Inl e) # rs) = Some e"
| "first_error (r # rs) = first_error rs"

fun results :: "(exn + 'a) option list \<Rightarrow> 'a list option" where
  "results [] = Some []"
| "results (Some (Inr v) # rs) = map_option ((#) v) (results rs)"
| "results (r # rs) = None"

definition gather :: "(exn + 'a) option list \<Rightarrow> (exn + 'a list) option" where
  "gather rs =
     (case first_error rs of
        Some e \<Rightarrow> Some (Inl e)
      | None \<Rightarrow> map_option Inr (results rs))"

text \<open>
  \<^verbatim>\<open>MergedWishHistory\<close> and \<^verbatim>\<open>MergedTransactions\<close> are an \<^verbatim>\<open>AuthkeyPaginator\<close> with
  the list \<^verbatim>\<open>_paginators\<close> of child paginators and the key \<^verbatim>\<open>__key\<close> (the fields
  \<open>paginators\<close> and \<open>key'\<close>). A child is a
  paginator object together with its method \<^verbatim>\<open>function\<close>. \<^verbatim>\<open>__init__\<close> hands its
  \<^verbatim>\<open>**kwargs\<close> (\<open>authkey\<close>, \<open>limit\<close>, \<open>end_id\<close>) to every child as well.

  The four classes \<^verbatim>\<open>WishHistory\<close>, \<^verbatim>\<open>MergedWishHistory\<close>, \<^verbatim>\<open>Transactions\<close> and
  \<^verbatim>\<open>MergedTransactions\<close> each add the fields \<open>client\<close> and \<open>lang\<close> to
  \<^verbatim>\<open>AuthkeyPaginator\<close>; the record \<open>client_paginator\<close> is that common part. The client
  is not among the sources: what it answers is a parameter of the methods that call it,
  and the one attribute read from it, \<^verbatim>\<open>client.lang\<close>, is the field \<open>client_lang\<close>.
\<close>

record client_paginator = authkey_paginator +
  client_lang :: string
  lang :: "string option"

record ('m, 'w, 'z, 'k) merged_paginator = client_paginator +
  paginators :: "(('m idmodel_scheme, 'w) fetch \<times> 'z authkey_paginator_scheme) list"
  key' :: "'m idmodel_scheme \<Rightarrow> 'k"

text \<open>
  The eager branch of \<^verbatim>\<open>flatten\<close>:
  \<^verbatim>\<open>lists = await asyncio.gather(*(p.flatten() for p in self._paginators))\<close> and then
  \<^verbatim>\<open>list(heapq.merge(*lists, key=self.__key))[: self.limit]\<close>. Every child runs against
  the world as \<^verbatim>\<open>flatten\<close> finds it; what the children do to the world is taken not to
  reach the other children.
\<close>

definition child_flatten ::
  "'w \<Rightarrow> ('m idmodel_scheme, 'w) fetch \<times> 'z authkey_paginator_scheme \<Rightarrow>
     (exn + 'm idmodel_scheme list) option" where
  "child_flatten w c = map_option fst (flatten (fst c) (snd c) w)"

definition flatten_eager ::
  "('m, 'w, 'z, 'k::linorder, 'y) merged_paginator_scheme \<Rightarrow> 'w \<Rightarrow>
     (exn + 'm idmodel_scheme list) option" where
  "flatten_eager mp w =
     (case gather (map (child_flatten w) (paginators mp)) of
        None \<Rightarrow> None
      | Some (Inl e) \<Rightarrow> Some (Inl e)
      | Some (Inr ls) \<Rightarrow> Some (Inr (slice_to (limit mp) (heapq_merge (key' mp) ls))))"

section \<open>The merged paginator, lazy mode\<close>

text \<open>
  Modelled from the spec: \<^verbatim>\<open>amerge\<close> is imported from \<^verbatim>\<open>genshin/utils\<close>, which is not
  among the sources. The specification (section 4.2, Ordered Stream Merge) says: keep one
  pending item per source that is still alive; repeatedly select, among the pending items,
  the one with the least key, ties broken by the order in which the sources were
  registered; yield it; refill the slot of that source by pulling its next item; drop a
  source that is exhausted; stop when all sources are. An exception of a source escapes.

  A source is its resumption function and its slot. A slot is empty (the source has to
  be pulled: at the start, and after its item was yielded), holds a pending item, or is
  dropped. One resumption of the merge pulls every source whose slot is empty, in order,
  and then selects.
\<close>

datatype ('a, 's) slot = Empty 's | Pending 'a 's | Dropped 's

type_synonym ('a, 's) source = "('s \<Rightarrow> ('a, 's) step) \<times> ('a, 's) slot"

fun refill :: "('a, 's) source list \<Rightarrow> exn option \<times> ('a, 's) source list" where
  "refill [] = (None, [])"
| "refill ((nxt, Empty s) # rest) =
     (case nxt s of
        Yield x s' \<Rightarrow> (case refill rest of (e, rest') \<Rightarrow> (e, (nxt, Pending x s') # rest'))
      | Stop s' \<Rightarrow> (case refill rest of (e, rest') \<Rightarrow> (e, (nxt, Dropped s') # rest'))
      | Raise e s' \<Rightarrow> (Some e, (nxt, Dropped s') # rest))"
| "refill (c # rest) = (case refill rest of (e, rest') \<Rightarrow> (e, c # rest'))"

fun select ::
  "('a \<Rightarrow> 'k::linorder) \<Rightarrow> ('a, 's) source list \<Rightarrow> ('a \<times> ('a, 's) source list) option" where
  "select key [] = None"
| "select key ((nxt, Pending x s) # rest) =
     (case select key rest of
        None \<Rightarrow> Some (x, (nxt, Empty s) # rest)
      | Some (y, rest') \<Rightarrow>
          if key y < key x then Some (y, (nxt, Pending x s) # rest')
          else Some (x, (nxt, Empty s) # rest))"
| "select key (c # rest) = map_option (\<lambda>(y, rest'). (y, c # rest')) (select key rest)"

definition amerge ::
  "('a \<Rightarrow> 'k::linorder) \<Rightarrow> ('a, 's) source list \<Rightarrow> ('a, ('a, 's) source list) step" where
  "amerge key srcs =
     (case refill srcs of
        (Some e, srcs') \<Rightarrow> Raise e srcs'
      | (None, srcs') \<Rightarrow>
          (case select key srcs' of
             None \<Rightarrow> Stop srcs'
           | Some (x, srcs'') \<Rightarrow> Yield x srcs''))"

text \<open>
  \<^verbatim>\<open>amerge(self._paginators, key=self.__key)\<close> iterates every child, that is, starts the
  child's \<^verbatim>\<open>__aiter__\<close>.
\<close>

definition child_source ::
  "'w \<Rightarrow> ('m idmodel_scheme, 'w) fetch \<times> 'z authkey_paginator_scheme \<Rightarrow>
     ('m idmodel_scheme,
      int option \<times> int \<times> 'z authkey_paginator_scheme \<times> 'w \<times> 'm idmodel_scheme list) source" where
  "child_source w c = (aislice (iter (fst c)) (limit (snd c)), Empty (aiter (snd c) w))"

text \<open>
  The lazy branch of \<^verbatim>\<open>flatten\<close>:
  \<^verbatim>\<open>[x async for x in aislice(amerge(self._paginators, key=self.__key), self.limit)]\<close>.
\<close>

definition flatten_lazy ::
  "('m, 'w, 'z, 'k::linorder, 'y) merged_paginator_scheme \<Rightarrow> 'w \<Rightarrow>
     (exn + 'm idmodel_scheme list) option" where
  "flatten_lazy mp w =
     map_option fst
       (drain (aislice (amerge (key' mp)) (limit mp))
          (None, 1, map (child_source w) (paginators mp)))"

text \<open>
  \<^verbatim>\<open>MergedWishHistory.flatten(lazy)\<close> and \<^verbatim>\<open>MergedTransactions.flatten(lazy)\<close>, which
  are the same code. The lazy branch is taken only when a limit is set. (Before the
  branch, \<^verbatim>\<open>flatten\<close> schedules a request with \<^verbatim>\<open>asyncio.create_task\<close> and never awaits
  it, so it has no part in the result; the request is \<open>flatten_prepare\<close> below.)
\<close>

definition merged_flatten ::
  "bool \<Rightarrow> ('m, 'w, 'z, 'k::linorder, 'y) merged_paginator_scheme \<Rightarrow> 'w \<Rightarrow>
     (exn + 'm idmodel_scheme list) option" where
  "merged_flatten lazy mp w =
     (if limit mp \<noteq> None \<and> lazy then flatten_lazy mp w else flatten_eager mp w)"

section \<open>Wish and transaction paginators\<close>

text \<open>
  The calls the paginators make to the client, with their arguments. The client itself
  (\<^verbatim>\<open>genshin/client\<close>) is not among the sources.
\<close>

datatype client_call =
    Get_banner_types "string option" "string option"
  | Get_transaction_reasons string
  | Request_gacha_info string "string option" "string option" "(string \<times> int) list"
  | Request_transaction string "string option" "string option" "(string \<times> int) list"

text \<open>\<^verbatim>\<open>self.lang or self.client.lang\<close>: \<^verbatim>\<open>None\<close> and the empty string are false.\<close>

definition lang_or :: "string option \<Rightarrow> string \<Rightarrow> string" where
  "lang_or l d = (case l of None \<Rightarrow> d | Some s \<Rightarrow> if s = [] then d else s)"

text \<open>\<^verbatim>\<open>str.capitalize\<close>, on ASCII letters.\<close>

definition ascii_upper :: "char \<Rightarrow> char" where
  "ascii_upper c =
     (let n = (of_char c :: nat) in if 97 \<le> n \<and> n \<le> 122 then char_of (n - 32) else c)"

definition ascii_lower :: "char \<Rightarrow> char" where
  "ascii_lower c =
     (let n = (of_char c :: nat) in if 65 \<le> n \<and> n \<le> 90 then char_of (n + 32) else c)"

definition capitalize :: "string \<Rightarrow> string" where
  "capitalize s = (case s of [] \<Rightarrow> [] | c # cs \<Rightarrow> ascii_upper c # map ascii_lower cs)"

record wish_history = client_paginator +
  banner_type :: int

record transactions = client_paginator +
  kind :: string

definition WishHistory ::
  "string \<Rightarrow> int \<Rightarrow> string option \<Rightarrow> string option \<Rightarrow> int option \<Rightarrow> int \<Rightarrow> wish_history" where
  "WishHistory cl b lg ak lim e =
     \<lparr>limit = lim, end_id = Some e, authkey = ak, client_lang = cl, lang = lg, banner_type = b\<rparr>"

definition Transactions ::
  "string \<Rightarrow> string \<Rightarrow> string option \<Rightarrow> string option \<Rightarrow> int option \<Rightarrow> int \<Rightarrow> transactions" where
  "Transactions cl kd lg ak lim e =
     \<lparr>limit = lim, end_id = Some e, authkey = ak, client_lang = cl, lang = lg, kind = kd\<rparr>"

text \<open>
  The client calls of one \<^verbatim>\<open>WishHistory.function(end_id)\<close>: the page request, then
  \<^verbatim>\<open>_get_banner_name\<close>, which asks for the banner types, the table from which every
  \<^verbatim>\<open>Wish\<close> of the page gets its \<open>banner_name\<close>.
\<close>

definition WishHistory_lookup :: "'z wish_history_scheme \<Rightarrow> client_call" where
  "WishHistory_lookup p = Get_banner_types (lang p) (authkey p)"

definition WishHistory_calls :: "'z wish_history_scheme \<Rightarrow> int \<Rightarrow> client_call list" where
  "WishHistory_calls p e =
     [Request_gacha_info ''getGachaLog'' (lang p) (authkey p)
        [(''gacha_type'', banner_type p), (''size'', int page_size), (''end_id'', e)],
      WishHistory_lookup p]"

text \<open>
  The client calls of one \<^verbatim>\<open>Transactions.function(end_id)\<close>: the task that gets the
  table of transaction reasons, from which every transaction of the page gets its
  \<open>reason\<close>, and the page request.
\<close>

definition Transactions_lookup :: "'z transactions_scheme \<Rightarrow> client_call" where
  "Transactions_lookup p = Get_transaction_reasons (lang_or (lang p) (client_lang p))"

definition Transactions_calls :: "'z transactions_scheme \<Rightarrow> int \<Rightarrow> client_call list" where
  "Transactions_calls p e =
     [Transactions_lookup p,
      Request_transaction (''get'' @ capitalize (kind p) @ ''Log'') (lang p) (authkey p)
        [(''end_id'', e), (''size'', 20)]]"

text \<open>
  The first statement of \<^verbatim>\<open>MergedWishHistory.flatten\<close> and of
  \<^verbatim>\<open>MergedTransactions.flatten\<close>, the same in both:
  \<^verbatim>\<open>asyncio.create_task(self.client.get_banner_types(lang=self.lang, authkey=self.authkey))\<close>.
\<close>

definition flatten_prepare :: "'z client_paginator_scheme \<Rightarrow> client_call" where
  "flatten_prepare mp = Get_banner_types (lang mp) (authkey mp)"

text \<open>
  \<^verbatim>\<open>MergedWishHistory.__init__\<close> and \<^verbatim>\<open>MergedTransactions.__init__\<close>. What the client
  answers to the page requests of each child is the parameter \<open>client\<close>. The key is the
  negated time of the item, which is the parameter \<open>tm\<close>.
\<close>

definition MergedWishHistory ::
  "(int \<Rightarrow> ('m idmodel_scheme, 'w) fetch) \<Rightarrow> ('m idmodel_scheme \<Rightarrow> int) \<Rightarrow> string \<Rightarrow>
   string option \<Rightarrow> string option \<Rightarrow> int option \<Rightarrow> int \<Rightarrow>
     ('m, 'w, \<lparr>client_lang :: string, lang :: string option, banner_type :: int\<rparr>, int)
       merged_paginator" where
  "MergedWishHistory client tm cl lg ak lim e =
     \<lparr>limit = lim, end_id = Some e, authkey = ak, client_lang = cl, lang = lg,
      paginators = map (\<lambda>b. (client b, WishHistory cl b lg ak lim e)) [100, 200, 301, 302],
      key' = (\<lambda>wish. - tm wish)\<rparr>"

definition MergedTransactions ::
  "(string \<Rightarrow> ('m idmodel_scheme, 'w) fetch) \<Rightarrow> ('m idmodel_scheme \<Rightarrow> int) \<Rightarrow> string \<Rightarrow>
   string option \<Rightarrow> string option \<Rightarrow> int option \<Rightarrow> int \<Rightarrow>
     ('m, 'w, \<lparr>client_lang :: string, lang :: string option, kind :: string\<rparr>, int)
       merged_paginator" where
  "MergedTransactions client tm cl lg ak lim e =
     \<lparr>limit = lim, end_id = Some e, authkey = ak, client_lang = cl, lang = lg,
      paginators = map (\<lambda>kd. (client kd, Transactions cl kd lg ak lim e))
        [''primogem'', ''crystal'', ''resin'', ''artifact'', ''weapon''],
      key' = (\<lambda>t. - tm t)\<rparr>"

section \<open>\<^verbatim>\<open>Transactions.function\<close>: building the items of a page\<close>

text \<open>
  A raw record is a JSON object: a map from field names to raw values \<open>'v\<close>. The models
  \<^verbatim>\<open>Transaction\<close> and \<^verbatim>\<open>ItemTransaction\<close> are pydantic models; how pydantic converts a
  raw value to an \<^verbatim>\<open>int\<close>, a \<^verbatim>\<open>str\<close> or a \<^verbatim>\<open>datetime\<close> (given here as a number of
  microseconds) is a parameter. \<open>None\<close> is a value pydantic rejects.
\<close>

record 'v pydantic =
  as_int :: "'v \<Rightarrow> int option"
  as_str :: "'v \<Rightarrow> string option"
  as_datetime :: "'v \<Rightarrow> int option"

text \<open>
  \<^verbatim>\<open>Transaction\<close> has the fields below; \<^verbatim>\<open>ItemTransaction\<close> is its subclass with the
  further fields \<open>name\<close> and \<open>rarity\<close>. An object of either class is a transaction
  record whose extension is \<open>None\<close> for a \<^verbatim>\<open>Transaction\<close> and the two further fields for
  an \<^verbatim>\<open>ItemTransaction\<close>.
\<close>

record item_fields =
  name :: string
  rarity :: int

record transaction = idmodel +
  kind :: string
  uid :: int
  time :: int
  amount :: int
  reason_id :: int
  reason :: string

type_synonym any_transaction = "item_fields option transaction_scheme"

definition is_ItemTransaction :: "any_transaction \<Rightarrow> bool" where
  "is_ItemTransaction t = (transaction.more t \<noteq> None)"

definition validation_error :: exn where
  "validation_error = Exn ''ValidationError'' ''validation error''"

definition field :: "('v \<Rightarrow> 'a option) \<Rightarrow> (string \<rightharpoonup> 'v) \<Rightarrow> string \<Rightarrow> 'a option" where
  "field conv kwargs k = (case kwargs k of None \<Rightarrow> None | Some v \<Rightarrow> conv v)"

text \<open>
  \<^verbatim>\<open>Transaction(**kwargs)\<close>: every field is read under its alias (\<open>add_num\<close> for
  \<open>amount\<close>, \<open>reason\<close> for \<open>reason_id\<close>, \<open>reason_str\<close> for \<open>reason\<close>), a field that
  is missing or not convertible is a validation error, and \<open>kind\<close> has to be one of the
  literals of the class. \<open>reason_str\<close> and \<open>kind\<close> are given by the caller as strings.
\<close>

definition Transaction_init ::
  "'v pydantic \<Rightarrow> (string \<rightharpoonup> 'v) \<Rightarrow> string \<Rightarrow> string \<Rightarrow> exn + any_transaction" where
  "Transaction_init V kwargs reason_str kd =
     (case (field (as_int V) kwargs ''id'', field (as_int V) kwargs ''uid'',
            field (as_datetime V) kwargs ''time'', field (as_int V) kwargs ''add_num'',
            field (as_int V) kwargs ''reason'') of
        (Some i, Some u, Some t, Some a, Some r) \<Rightarrow>
          if kd \<in> {''primogem'', ''crystal'', ''resin''}
          then Inr \<lparr>id' = i, kind = kd, uid = u, time = t, amount = a, reason_id = r,
                    reason = reason_str, \<dots> = None\<rparr>
          else Inl validation_error
      | _ \<Rightarrow> Inl validation_error)"

definition ItemTransaction_init ::
  "'v pydantic \<Rightarrow> (string \<rightharpoonup> 'v) \<Rightarrow> string \<Rightarrow> string \<Rightarrow> exn + any_transaction" where
  "ItemTransaction_init V kwargs reason_str kd =
     (case (field (as_int V) kwargs ''id'', field (as_int V) kwargs ''uid'',
            field (as_datetime V) kwargs ''time'', field (as_int V) kwargs ''add_num'',
            field (as_int V) kwargs ''reason'', field (as_str V) kwargs ''name'',
            field (as_int V) kwargs ''rank'') of
        (Some i, Some u, Some t, Some a, Some r, Some n, Some k) \<Rightarrow>
          if kd \<in> {''artifact'', ''weapon''}
          then Inr \<lparr>id' = i, kind = kd, uid = u, time = t, amount = a, reason_id = r,
                    reason = reason_str, \<dots> = Some \<lparr>name = n, rarity = k\<rparr>\<rparr>
          else Inl validation_error
      | _ \<Rightarrow> Inl validation_error)"

text \<open>
  The body of the loop of \<^verbatim>\<open>Transactions.function\<close>, for one raw record \<open>raw\<close> (\<^verbatim>\<open>trans\<close> in the source):
  \<^verbatim>\<open>cls = ItemTransaction if "name" in trans else Transaction\<close>,
  \<^verbatim>\<open>reason = reasons.get(trans["reason"], "")\<close>,
  \<^verbatim>\<open>cls(**trans, reason_str=reason, kind=self.kind)\<close>. \<^verbatim>\<open>trans["reason"]\<close> raises
  \<^verbatim>\<open>KeyError\<close> when the record has no reason, and the call raises \<^verbatim>\<open>TypeError\<close> when
  the record itself has a field \<open>reason_str\<close> or \<open>kind\<close>, which would be given twice.
\<close>

definition make_transaction ::
  "'v pydantic \<Rightarrow> string \<Rightarrow> ('v \<rightharpoonup> string) \<Rightarrow> (string \<rightharpoonup> 'v) \<Rightarrow> exn + any_transaction" where
  "make_transaction V kd reasons raw =
     (case raw ''reason'' of
        None \<Rightarrow> Inl (Exn ''KeyError'' ''reason'')
      | Some r \<Rightarrow>
          (let reason_str = (case reasons r of None \<Rightarrow> '''' | Some s \<Rightarrow> s) in
           if ''reason_str'' \<in> dom raw \<or> ''kind'' \<in> dom raw
           then Inl (Exn ''TypeError'' ''got multiple values for keyword argument'')
           else if ''name'' \<in> dom raw
             then ItemTransaction_init V raw reason_str kd
             else Transaction_init V raw reason_str kd))"

fun make_transactions ::
  "'v pydantic \<Rightarrow> string \<Rightarrow> ('v \<rightharpoonup> string) \<Rightarrow> (string \<rightharpoonup> 'v) list \<Rightarrow>
     exn + any_transaction list" where
  "make_transactions V kd reasons [] = Inr []"
| "make_transactions V kd reasons (raw # rest) =
     (case make_transaction V kd reasons raw of
        Inl e \<Rightarrow> Inl e
      | Inr t \<Rightarrow>
          (case make_transactions V kd reasons rest of
             Inl e \<Rightarrow> Inl e
           | Inr ts \<Rightarrow> Inr (t # ts)))"

text \<open>
  \<^verbatim>\<open>Transactions.function\<close>, given what the two client calls answer: the page request
  (awaited first) answers the raw records of \<^verbatim>\<open>data["list"]\<close> or raises, and the task of
  the reasons answers the table or raises.
\<close>

definition Transactions_function ::
  "'v pydantic \<Rightarrow> 'z transactions_scheme \<Rightarrow> exn + (string \<rightharpoonup> 'v) list \<Rightarrow>
   exn + ('v \<rightharpoonup> string) \<Rightarrow> exn + any_transaction list" where
  "Transactions_function V p data reasons_task =
     (case data of
        Inl e \<Rightarrow> Inl e
      | Inr raws \<Rightarrow>
          (case reasons_task of
             Inl e \<Rightarrow> Inl e
           | Inr reasons \<Rightarrow> make_transactions V (transactions.kind p) reasons raws))"

section \<open>Concrete sources\<close>

text \<open>
  A source whose every page is the single item with id 7, and a source whose every fetch
  raises \<^verbatim>\<open>Exception("No more pages")\<close>.
\<close>

definition one_item_fetch :: "(unit idmodel_scheme, unit) fetch" where
  "one_item_fetch c w = (Inr [\<lparr>id' = 7\<rparr>], w)"

definition failing_fetch :: "(unit idmodel_scheme, unit) fetch" where
  "failing_fetch c w = (Inl no_more_pages, w)"

definition mk_items :: "int list \<Rightarrow> unit idmodel_scheme list" where
  "mk_items ids = map (\<lambda>n. \<lparr>id' = n\<rparr>) ids"

text \<open>A source that answers a full page of 20 items to the cursor 0 and 2 items to every other.\<close>

definition two_pages_fetch :: "(unit idmodel_scheme, unit) fetch" where
  "two_pages_fetch c w =
     (if c = 0
      then (Inr (mk_items [1, 2, 3, 4, 5, 6, 7, 8, 9, 10, 11, 12, 13, 14, 15, 16, 17, 18, 19, 20]), w)
      else (Inr (mk_items [21, 22]), w))"

text \<open>A source whose every page is the items with the given ids.\<close>

definition page_fetch :: "int list \<Rightarrow> (unit idmodel_scheme, unit) fetch" where
  "page_fetch ids c w = (Inr (mk_items ids), w)"

text \<open>
  A merged paginator over the given sources, built as \<^verbatim>\<open>__init__\<close> builds it: every
  child gets the limit of the parent. The key is the id.
\<close>

definition scenario ::
  "(unit idmodel_scheme, unit) fetch list \<Rightarrow> int option \<Rightarrow>
     (unit, unit, unit, int) merged_paginator" where
  "scenario fs lim =
     \<lparr>limit = lim, end_id = Some 0, authkey = None, client_lang = ''en-us'', lang = None,
      paginators = map (\<lambda>f. (f, AuthkeyPaginator None lim 0)) fs,
      key' = id'\<rparr>"

text \<open>
  Raw JSON values, a pydantic that converts nothing (an \<^verbatim>\<open>int\<close> field takes a number,
  a \<^verbatim>\<open>str\<close> field a string), and the raw record of an artifact.
\<close>

datatype jval = JInt int | JStr string

definition strict :: "jval pydantic" where
  "strict =
     \<lparr>as_int = (\<lambda>v. case v of JInt n \<Rightarrow> Some n | JStr s \<Rightarrow> None),
      as_str = (\<lambda>v. case v of JStr s \<Rightarrow> Some s | JInt n \<Rightarrow> None),
      as_datetime = (\<lambda>v. case v of JInt n \<Rightarrow> Some n | JStr s \<Rightarrow> None)\<rparr>"

definition artifact_raw :: "string \<rightharpoonup> jval" where
  "artifact_raw =
     [''id'' \<mapsto> JInt 1, ''uid'' \<mapsto> JInt 2, ''time'' \<mapsto> JInt 3, ''add_num'' \<mapsto> JInt 4,
      ''reason'' \<mapsto> JInt 5, ''name'' \<mapsto> JStr ''Sword'', ''rank'' \<mapsto> JInt 4]"

definition sword :: any_transaction where
  "sword =
     \<lparr>id' = 1, kind = ''artifact'', uid = 2, time = 3, amount = 4, reason_id = 5,
      reason = '''', \<dots> = Some \<lparr>name = ''Sword'', rarity = 4\<rparr>\<rparr>"

text \<open>
  What a source of the merge still has to give, when collecting it ends: the pending item,
  if there is one, and then what its generator gives from the state it is in. A source is
  ready when its slot is not empty.
\<close>

fun holds :: "('a, 's) source \<Rightarrow> 'a list \<Rightarrow> bool" where
  "holds (nxt, Empty s) xs = (\<exists>st. drain nxt s = Some (Inr xs, st))"
| "holds (nxt, Pending x s) xs = (\<exists>xs' st. xs = x # xs' \<and> drain nxt s = Some (Inr xs', st))"
| "holds (nxt, Dropped s) xs = (xs = [])"

fun ready :: "('a, 's) source \<Rightarrow> bool" where
  "ready (nxt, Empty s) = False"
| "ready (nxt, Pending x s) = True"
| "ready (nxt, Dropped s) = True"

section \<open>Resuming and collecting generators\<close>

declare aislice.simps [simp del]

lemma drain_Stop: "nxt s = Stop s' \<Longrightarrow> drain nxt s = Some (Inr [], s')"
  by (subst drain.simps) simp

lemma drain_Raise: "nxt s = Raise e s' \<Longrightarrow> drain nxt s = Some (Inl e, s')"
  by (subst drain.simps) simp

lemma drain_Yield:
  "nxt s = Yield x s' \<Longrightarrow>
   drain nxt s = Option.bind (drain nxt s')
            (\<lambda>(r, s''). Some (case r of Inl e \<Rightarrow> Inl e | Inr xs \<Rightarrow> Inr (x # xs), s''))"
  by (subst drain.simps) simp

text \<open>What every resumption preserves holds of the state a finished collection leaves.\<close>

lemma drain_invariant:
  assumes "drain nxt s = Some (r, s')" and "I s"
    and Y: "\<And>s x s'. I s \<Longrightarrow> nxt s = Yield x s' \<Longrightarrow> I s'"
    and S: "\<And>s s'. I s \<Longrightarrow> nxt s = Stop s' \<Longrightarrow> I s'"
    and R: "\<And>s e s'. I s \<Longrightarrow> nxt s = Raise e s' \<Longrightarrow> I s'"
  shows "I s'"
proof -
  have "nxt0 = nxt \<longrightarrow> I s0 \<longrightarrow> I (snd y)" if "drain nxt0 s0 = Some y" for nxt0 s0 y
    using that
  proof (induction rule: drain.raw_induct[rotated 1, consumes 1])
    case (1 drain' nxt0 s0 y)
    show ?case
    proof (intro impI)
      assume eq: "nxt0 = nxt" and I: "I s0"
      show "I (snd y)"
      proof (cases "nxt s0")
        case (Yield x s1)
        with 1(2) eq obtain y1 where y1: "drain' nxt s1 = Some y1" and "snd y = snd y1"
          by (auto simp: bind_eq_Some_conv split: prod.splits)
        with 1(1)[OF y1] Y[OF I Yield] show ?thesis by simp
      next
        case (Stop s1)
        with 1(2) eq S[OF I Stop] show ?thesis by auto
      next
        case (Raise e s1)
        with 1(2) eq R[OF I Raise] show ?thesis by auto
      qed
    qed
  qed
  from this[OF assms(1)] assms(2) show ?thesis by simp
qed

text \<open>
  Two generators whose resumptions agree up to a map \<open>h\<close> of their states collect the
  same result.
\<close>

lemma drain_simulation:
  assumes sim: "\<And>s. nxt2 (h s) = map_step id h (nxt1 s)"
    and d: "drain nxt1 s = Some (r, s')"
  shows "drain nxt2 (h s) = Some (r, h s')"
proof -
  have "nxt0 = nxt1 \<longrightarrow> drain nxt2 (h s0) = Some (fst res, h (snd res))"
    if "drain nxt0 s0 = Some res" for nxt0 s0 res
    using that
  proof (induction rule: drain.raw_induct[rotated 1, consumes 1])
    case (1 drain' nxt0 s0 res)
    show ?case
    proof
      assume eq: "nxt0 = nxt1"
      show "drain nxt2 (h s0) = Some (fst res, h (snd res))"
      proof (cases "nxt1 s0")
        case (Yield x s1)
        then have n2: "nxt2 (h s0) = Yield x (h s1)"
          by (simp add: sim)
        from 1(2) eq Yield obtain r1 q1 where
          d1: "drain' nxt1 s1 = Some (r1, q1)"
          and r: "res = (case r1 of Inl e \<Rightarrow> Inl e | Inr zs \<Rightarrow> Inr (x # zs), q1)"
          by (auto simp: bind_eq_Some_conv split: prod.splits)
        from 1(1)[OF d1] have "drain nxt2 (h s1) = Some (r1, h q1)"
          by simp
        then show ?thesis
          by (simp add: drain_Yield[of nxt2 "h s0" x "h s1"] n2 r)
      next
        case (Stop s1)
        then have n2: "nxt2 (h s0) = Stop (h s1)"
          by (simp add: sim)
        from 1(2) eq Stop have "res = (Inr [], s1)" by simp
        then show ?thesis
          using drain_Stop[of nxt2 "h s0" "h s1"] n2 by simp
      next
        case (Raise e s1)
        then have n2: "nxt2 (h s0) = Raise e (h s1)"
          by (simp add: sim)
        from 1(2) eq Raise have "res = (Inl e, s1)" by simp
        then show ?thesis
          using drain_Raise[of nxt2 "h s0" e "h s1"] n2 by simp
      qed
    qed
  qed
  from this[OF d] show ?thesis by simp
qed

subsection \<open>\<^verbatim>\<open>aislice\<close> with and without a bound\<close>

lemma aislice_unlimited_step:
  "aislice nxt None (y, i, s) =
     (case nxt s of Yield x s' \<Rightarrow> Yield x (Some i, i + 1, s')
      | Stop s' \<Rightarrow> Stop (y, i, s') | Raise e s' \<Rightarrow> Raise e (y, i, s'))"
  by (simp add: aislice.simps stop_reached_def split: option.splits step.splits)

lemma aislice_limited_step:
  "y = None \<or> y = Some (i - 1) \<Longrightarrow> i \<le> L \<Longrightarrow>
   aislice nxt (Some L) (y, i, s) =
     (case nxt s of Yield x s' \<Rightarrow> Yield x (Some i, i + 1, s')
      | Stop s' \<Rightarrow> Stop (y, i, s') | Raise e s' \<Rightarrow> Raise e (y, i, s'))"
  by (auto simp add: aislice.simps stop_reached_def split: option.splits step.splits)

lemma aislice_limit_hit:
  "0 < L \<Longrightarrow> L \<le> j \<Longrightarrow> aislice nxt (Some L) (Some j, es) = Stop (Some j, es)"
  by (simp add: aislice.simps stop_reached_def)

lemma aislice_simulation:
  assumes sim: "\<And>s. nxt2 (h s) = map_step id h (nxt1 s)"
  shows "aislice nxt2 stop (y, i, h s) =
           map_step id (\<lambda>(y, i, s). (y, i, h s)) (aislice nxt1 stop (y, i, s))"
  by (simp add: aislice.simps sim split: step.splits option.splits)

lemma drain_aislice_prefix_aux:
  assumes "drain nxt0 st0 = Some res" and L: "0 < L"
  shows "nxt0 = aislice nxt None \<longrightarrow>
         (\<forall>xs y i s. fst res = Inr xs \<longrightarrow> st0 = (y, i, s) \<longrightarrow> i \<le> L \<longrightarrow>
            (y = None \<or> y = Some (i - 1)) \<longrightarrow>
            (\<exists>st'. drain (aislice nxt (Some L)) st0 = Some (Inr (take (nat (L - i + 1)) xs), st')))"
  using assms(1)
proof (induction rule: drain.raw_induct[rotated 1, consumes 1])
  case (1 drain' nxt0 st0 res)
  show ?case
  proof (intro impI allI)
    fix xs y i s
    assume eq: "nxt0 = aislice nxt None" and res: "fst res = Inr xs"
      and st0: "st0 = (y, i, s)" and i: "i \<le> L" and y: "y = None \<or> y = Some (i - 1)"
    show "\<exists>st'. drain (aislice nxt (Some L)) st0 = Some (Inr (take (nat (L - i + 1)) xs), st')"
    proof (cases "nxt s")
      case (Yield x s1)
      have u: "aislice nxt None (y, i, s) = Yield x (Some i, i + 1, s1)"
        by (simp add: aislice_unlimited_step Yield)
      have l: "aislice nxt (Some L) (y, i, s) = Yield x (Some i, i + 1, s1)"
        using aislice_limited_step[OF y i, of nxt s] Yield by simp
      from 1(2) eq st0 u obtain r1 q1 where
        d1: "drain' (aislice nxt None) (Some i, i + 1, s1) = Some (r1, q1)"
        and r: "fst res = (case r1 of Inl e \<Rightarrow> Inl e | Inr zs \<Rightarrow> Inr (x # zs))"
        by (auto simp: bind_eq_Some_conv split: prod.splits)
      from r res obtain zs where zs: "r1 = Inr zs" "xs = x # zs"
        by (cases r1) auto
      have dl: "drain (aislice nxt (Some L)) st0 =
          Option.bind (drain (aislice nxt (Some L)) (Some i, i + 1, s1))
            (\<lambda>(r, s''). Some (case r of Inl e \<Rightarrow> Inl e | Inr xs \<Rightarrow> Inr (x # xs), s''))"
        using drain_Yield[of "aislice nxt (Some L)" st0 x "(Some i, i + 1, s1)"] l st0 by simp
      show ?thesis
      proof (cases "i + 1 \<le> L")
        case True
        from 1(1)[OF d1] zs True obtain st' where
          "drain (aislice nxt (Some L)) (Some i, i + 1, s1)
             = Some (Inr (take (nat (L - (i + 1) + 1)) zs), st')"
          by auto
        moreover have "nat (L - i + 1) = Suc (nat (L - (i + 1) + 1))"
          using True by arith
        then have "take (nat (L - i + 1)) (x # zs) = x # take (nat (L - (i + 1) + 1)) zs"
          by simp
        ultimately show ?thesis
          using zs by (cases st') (simp add: dl)
      next
        case False
        with i have iL: "i = L" by simp
        have "drain (aislice nxt (Some L)) (Some i, i + 1, s1) = Some (Inr [], (Some i, i + 1, s1))"
          by (rule drain_Stop) (simp add: aislice_limit_hit L iL)
        moreover have "take (nat (L - i + 1)) (x # zs) = [x]"
          using iL by simp
        ultimately show ?thesis
          using zs by (auto simp add: dl)
      qed
    next
      case (Stop s1)
      have u: "aislice nxt None (y, i, s) = Stop (y, i, s1)"
        by (simp add: aislice_unlimited_step Stop)
      have l: "aislice nxt (Some L) (y, i, s) = Stop (y, i, s1)"
        using aislice_limited_step[OF y i, of nxt s] Stop by simp
      from 1(2) eq st0 u res have "xs = []" by auto
      then show ?thesis
        using drain_Stop[of "aislice nxt (Some L)" st0 "(y, i, s1)"] l st0 by simp
    next
      case (Raise e s1)
      have u: "aislice nxt None (y, i, s) = Raise e (y, i, s1)"
        by (simp add: aislice_unlimited_step Raise)
      from 1(2) eq st0 u res show ?thesis by auto
    qed
  qed
qed

text \<open>
  A generator that, collected whole, gives \<open>xs\<close> gives the first \<open>L\<close> items of \<open>xs\<close>
  when it is sliced at a positive \<open>L\<close>.
\<close>

lemma drain_aislice_prefix:
  assumes "drain (aislice nxt None) (None, 1, s) = Some (Inr xs, st)" and "0 < L"
  shows "\<exists>st'. drain (aislice nxt (Some L)) (None, 1, s) = Some (Inr (take (nat L) xs), st')"
  using drain_aislice_prefix_aux[OF assms, of nxt] assms(2) by simp

section \<open>The cursor paginator\<close>

lemma iter_Cons: "iter fetch (p, w, x # rest) = Yield x (p, w, rest)"
  by simp

lemma iter_Nil_exhausted: "exhausted p \<Longrightarrow> iter fetch (p, w, []) = Stop (p, w, [])"
  by simp

lemma iter_Nil_raise:
  "\<not> exhausted p \<Longrightarrow> next_page fetch p w = (Inl e, p', w') \<Longrightarrow>
   iter fetch (p, w, []) = Raise e (p', w', [])"
  by simp

lemma iter_Nil_page:
  "\<not> exhausted p \<Longrightarrow> next_page fetch p w = (Inr page, p', w') \<Longrightarrow>
   iter fetch (p, w, []) = iter fetch (p', w', page)"
  by (subst iter.simps) simp

declare iter.simps [simp del]

lemma exhausted_limit [simp]: "exhausted (p\<lparr>limit := l\<rparr>) = exhausted p"
  by (simp add: exhausted_def)

lemma next_page_exhausted:
  "exhausted p \<Longrightarrow> next_page fetch p w = (Inl no_more_pages, p, w)"
  by (simp add: next_page_def exhausted_def)

lemma next_page_frame:
  "next_page fetch p w = (r, p', w') \<Longrightarrow> p' = p\<lparr>end_id := end_id p'\<rparr>"
  by (auto simp: next_page_def split: option.splits prod.splits sum.splits if_splits)

lemma next_page_raise_keeps:
  "next_page fetch p w = (Inl e, p', w') \<Longrightarrow> p' = p"
  by (auto simp: next_page_def split: option.splits prod.splits sum.splits if_splits)

lemma next_page_limit:
  "next_page fetch (p\<lparr>limit := l\<rparr>) w =
     (case next_page fetch p w of (r, p', w') \<Rightarrow> (r, p'\<lparr>limit := l\<rparr>, w'))"
  by (simp add: next_page_def split: option.splits prod.splits sum.splits)

text \<open>\<^verbatim>\<open>_iter\<close> never reads \<open>limit\<close>.\<close>

lemma iter_limit:
  "iter fetch (p\<lparr>limit := l\<rparr>, w, buf) =
     map_step id (\<lambda>(p', w', b). (p'\<lparr>limit := l\<rparr>, w', b)) (iter fetch (p, w, buf))"
proof (induction fetch "(p, w, buf)" arbitrary: p w buf rule: iter.induct)
  case (1 fetch p w buf)
  show ?case
  proof (cases buf)
    case Nil
    show ?thesis
    proof (cases "exhausted p")
      case True
      then show ?thesis using Nil by (simp add: iter_Nil_exhausted)
    next
      case False
      obtain r p' w' where np: "next_page fetch p w = (r, p', w')"
        by (cases "next_page fetch p w") auto
      show ?thesis
      proof (cases r)
        case (Inl e)
        have "next_page fetch (p\<lparr>limit := l\<rparr>) w = (Inl e, p'\<lparr>limit := l\<rparr>, w')"
          using np Inl by (simp add: next_page_limit)
        then show ?thesis
          using Nil False np Inl
          by (simp add: iter_Nil_raise[of p fetch w e p' w']
                iter_Nil_raise[of "p\<lparr>limit := l\<rparr>" fetch w e "p'\<lparr>limit := l\<rparr>" w'])
      next
        case (Inr page)
        have "next_page fetch (p\<lparr>limit := l\<rparr>) w = (Inr page, p'\<lparr>limit := l\<rparr>, w')"
          using np Inr by (simp add: next_page_limit)
        with 1[OF Nil False np[symmetric] Inr refl]
        show ?thesis
          using Nil False np Inr
          by (simp add: iter_Nil_page[of p fetch w page p' w']
                iter_Nil_page[of "p\<lparr>limit := l\<rparr>" fetch w page "p'\<lparr>limit := l\<rparr>" w'])
      qed
    qed
  next
    case (Cons x rest)
    then show ?thesis by (simp add: iter_Cons)
  qed
qed

lemma iter_exhausted:
  "exhausted p \<Longrightarrow>
   iter fetch (p, w, buf) = (case buf of [] \<Rightarrow> Stop (p, w, []) | x # rest \<Rightarrow> Yield x (p, w, rest))"
  by (simp add: iter_Cons iter_Nil_exhausted split: list.splits)

lemma iter_frame:
  "fst (step_state (iter fetch (p, w, buf)))
     = p\<lparr>end_id := end_id (fst (step_state (iter fetch (p, w, buf))))\<rparr>"
proof (induction fetch "(p, w, buf)" arbitrary: p w buf rule: iter.induct)
  case (1 fetch p w buf)
  show ?case
  proof (cases buf)
    case Nil
    show ?thesis
    proof (cases "exhausted p")
      case True
      then show ?thesis using Nil by (simp add: iter_Nil_exhausted)
    next
      case False
      obtain r p' w' where np: "next_page fetch p w = (r, p', w')"
        by (cases "next_page fetch p w") auto
      have fr: "p' = p\<lparr>end_id := end_id p'\<rparr>"
        using np by (rule next_page_frame)
      show ?thesis
      proof (cases r)
        case (Inl e)
        then show ?thesis
          using Nil False np fr by (simp add: iter_Nil_raise[of p fetch w e p' w'])
      next
        case (Inr page)
        from 1[OF Nil False np[symmetric] Inr refl]
        have "fst (step_state (iter fetch (p', w', page)))
                = p'\<lparr>end_id := end_id (fst (step_state (iter fetch (p', w', page))))\<rparr>" .
        then have "fst (step_state (iter fetch (p', w', page)))
                = p\<lparr>end_id := end_id (fst (step_state (iter fetch (p', w', page))))\<rparr>"
          by (subst (asm) fr) simp
        then show ?thesis
          using Nil False np Inr by (simp add: iter_Nil_page[of p fetch w page p' w'])
      qed
    qed
  next
    case (Cons x rest)
    then show ?thesis by (simp add: iter_Cons)
  qed
qed

lemma aislice_frame:
  "fst (snd (snd (step_state (aislice (iter fetch) stop (y, i, p, w, buf)))))
     = p\<lparr>end_id := end_id (fst (snd (snd (step_state (aislice (iter fetch) stop (y, i, p, w, buf))))))\<rparr>"
proof (cases "iter fetch (p, w, buf)")
  case (Yield x s)
  with iter_frame[of fetch p w buf] show ?thesis
    by (cases s) (auto simp: aislice.simps split: option.splits)
next
  case (Stop s)
  with iter_frame[of fetch p w buf] show ?thesis
    by (cases s) (auto simp: aislice.simps split: option.splits)
next
  case (Raise e s)
  with iter_frame[of fetch p w buf] show ?thesis
    by (cases s) (auto simp: aislice.simps split: option.splits)
qed

lemma flatten_frame:
  assumes "flatten fetch p w = Some (r, p', w')"
  shows "p' = p\<lparr>end_id := end_id p'\<rparr>"
proof -
  from assms obtain y i buf where
    d: "drain (aislice (iter fetch) (limit p)) (aiter p w) = Some (r, (y, i, (p', w', buf)))"
    by (auto simp: flatten_def)
  let ?I = "\<lambda>st. fst (snd (snd st)) = p\<lparr>end_id := end_id (fst (snd (snd st)))\<rparr>"
  have step: "?I (step_state (aislice (iter fetch) (limit p) st))" if "?I st" for st
  proof -
    obtain y i q w buf where st: "st = (y, i, q, w, buf)"
      by (cases st) auto
    from that st have q: "q = p\<lparr>end_id := end_id q\<rparr>" by simp
    have "fst (snd (snd (step_state (aislice (iter fetch) (limit p) (y, i, q, w, buf)))))
       = q\<lparr>end_id := end_id (fst (snd (snd (step_state (aislice (iter fetch) (limit p) (y, i, q, w, buf))))))\<rparr>"
      by (rule aislice_frame)
    then show ?thesis
      unfolding st by (subst (asm) q) simp
  qed
  have "?I (y, i, (p', w', buf))"
  proof (rule drain_invariant[OF d, where I = ?I])
    show "?I (aiter p w)" by (simp add: aiter_def)
  next
    fix s x s' assume "?I s" "aislice (iter fetch) (limit p) s = Yield x s'"
    with step[of s] show "?I s'" by simp
  next
    fix s s' assume "?I s" "aislice (iter fetch) (limit p) s = Stop s'"
    with step[of s] show "?I s'" by simp
  next
    fix s e s' assume "?I s" "aislice (iter fetch) (limit p) s = Raise e s'"
    with step[of s] show "?I s'" by simp
  qed
  then show ?thesis by simp
qed

lemma aislice_exhausted:
  "exhausted p \<Longrightarrow> aislice (iter fetch) stop (aiter p w) = Stop (aiter p w)"
  by (simp add: aislice.simps aiter_def iter_Nil_exhausted)

lemma flatten_exhausted:
  "exhausted p \<Longrightarrow> flatten fetch p w = Some (Inr [], p, w)"
  using drain_Stop[of "aislice (iter fetch) (limit p)" "aiter p w" "aiter p w"]
    aislice_exhausted[of p fetch "limit p" w]
  by (simp add: flatten_def aiter_def)

text \<open>
  With a positive limit \<open>L\<close> the paginator gives the first \<open>L\<close> items of what it gives
  with no limit.
\<close>

lemma flatten_limit_prefix:
  assumes "flatten fetch (p\<lparr>limit := None\<rparr>) w = Some (Inr xs, p', w')" and "0 < L"
  shows "\<exists>p'' w''. flatten fetch (p\<lparr>limit := Some L\<rparr>) w = Some (Inr (take (nat L) xs), p'', w'')"
proof -
  let ?h = "\<lambda>(q, v, b). (q\<lparr>limit := Some L\<rparr>, v, b)"
  let ?H = "\<lambda>(y, i, s). (y, i, ?h s)"
  from assms(1) obtain st where
    "drain (aislice (iter fetch) None) (None, 1, (p\<lparr>limit := None\<rparr>, w, [])) = Some (Inr xs, st)"
    by (auto simp: flatten_def aiter_def)
  from drain_aislice_prefix[OF this assms(2)] obtain st' where
    d: "drain (aislice (iter fetch) (Some L)) (None, 1, (p\<lparr>limit := None\<rparr>, w, []))
          = Some (Inr (take (nat L) xs), st')"
    by blast
  have sim0: "iter fetch (?h s) = map_step id ?h (iter fetch s)" for s
    by (cases s) (simp add: iter_limit)
  have sim: "aislice (iter fetch) (Some L) (?H s) = map_step id ?H (aislice (iter fetch) (Some L) s)" for s
    using aislice_simulation[of "iter fetch" ?h "iter fetch", OF sim0] by (cases s) auto
  from drain_simulation[of "aislice (iter fetch) (Some L)" ?H "aislice (iter fetch) (Some L)", OF sim d]
  have "drain (aislice (iter fetch) (Some L)) (None, 1, (p\<lparr>limit := Some L\<rparr>, w, []))
          = Some (Inr (take (nat L) xs), ?H st')"
    by simp
  then show ?thesis
    by (cases st') (auto simp: flatten_def aiter_def)
qed

text \<open>A fetch that raises at the first call makes \<open>flatten\<close> raise the same exception.\<close>

lemma flatten_first_fetch_fails:
  assumes "end_id p = Some c" and "fetch c w = (Inl e, w')"
  shows "flatten fetch p w = Some (Inl e, p, w')"
proof -
  have np: "next_page fetch p w = (Inl e, p, w')"
    using assms by (simp add: next_page_def)
  have "\<not> exhausted p"
    using assms(1) by (simp add: exhausted_def)
  then have "iter fetch (p, w, []) = Raise e (p, w', [])"
    using np by (rule iter_Nil_raise)
  then have "aislice (iter fetch) (limit p) (aiter p w) = Raise e (None, 1, (p, w', []))"
    by (simp add: aislice.simps aiter_def)
  then have "drain (aislice (iter fetch) (limit p)) (aiter p w)
               = Some (Inl e, (None, 1, (p, w', [])))"
    by (rule drain_Raise)
  then show ?thesis
    by (simp add: flatten_def)
qed

text \<open>
  The scenario of the specification: a source that answers a full page of 20 items and
  then a page of 2 is exhausted only after the second fetch; \<open>flatten\<close> returns the 22
  items with two fetches, the second with the id of the last item of the first page.
\<close>

lemma two_pages_scenario:
  "next_page (logged two_pages_fetch) (IDPagintor None 0) ((), [])
     = (Inr (mk_items [1, 2, 3, 4, 5, 6, 7, 8, 9, 10, 11, 12, 13, 14, 15, 16, 17, 18, 19, 20]),
        (IDPagintor None 0)\<lparr>end_id := Some 20\<rparr>, ((), [0]))"
  "next_page (logged two_pages_fetch) ((IDPagintor None 0)\<lparr>end_id := Some 20\<rparr>) ((), [0])
     = (Inr (mk_items [21, 22]), (IDPagintor None 0)\<lparr>end_id := None\<rparr>, ((), [0, 20]))"
  "next_page (logged two_pages_fetch) ((IDPagintor None 0)\<lparr>end_id := None\<rparr>) ((), [0, 20])
     = (Inl no_more_pages, (IDPagintor None 0)\<lparr>end_id := None\<rparr>, ((), [0, 20]))"
  "flatten (logged two_pages_fetch) (IDPagintor None 0) ((), [])
     = Some (Inr (mk_items [1, 2, 3, 4, 5, 6, 7, 8, 9, 10, 11, 12, 13, 14, 15, 16, 17, 18, 19, 20,
                            21, 22]),
             (IDPagintor None 0)\<lparr>end_id := None\<rparr>, ((), [0, 20]))"
  by (simp_all add: flatten_def aiter_def drain.simps aislice.simps iter.simps IDPagintor_def
        next_page_def logged_def two_pages_fetch_def mk_items_def exhausted_def page_size_def
        stop_reached_def)

section \<open>Claims about the cursor paginator\<close>

text \<open>
  Claim C2. One call of \<open>next_page\<close> on a paginator that is not exhausted calls the
  fetch function once, with the current cursor. When the fetch returns a page, the page is
  returned as it is; if it has fewer than 20 items the paginator becomes exhausted, and
  otherwise the cursor becomes the id of the last item of the page and the paginator is
  still not exhausted. So the paginator is exhausted after the call exactly when the page
  was short, an empty page included.
\<close>

theorem next_page_non_exhausted:
  assumes "end_id p = Some c" and "fetch c w = (Inr data, w')"
  shows "next_page (logged fetch) p (w, log) =
           (Inr data,
            p\<lparr>end_id := (if length data < 20 then None else Some (id' (last data)))\<rparr>,
            (w', log @ [c]))
         \<and> (exhausted (fst (snd (next_page (logged fetch) p (w, log)))) \<longleftrightarrow> length data < 20)
         \<and> (data = [] \<longrightarrow> exhausted (fst (snd (next_page (logged fetch) p (w, log)))))"
  using assms by (simp add: next_page_def logged_def page_size_def exhausted_def)

theorem next_page_non_exhausted_witness:
  "end_id (IDPagintor None 0) = Some 0
   \<and> one_item_fetch 0 () = (Inr [\<lparr>id' = 7\<rparr>], ())
   \<and> next_page (logged one_item_fetch) (IDPagintor None 0) ((), []) =
        (Inr [\<lparr>id' = 7\<rparr>], (IDPagintor None 0)\<lparr>end_id := None\<rparr>, ((), [0]))
   \<and> exhausted (fst (snd (next_page (logged one_item_fetch) (IDPagintor None 0) ((), []))))"
proof -
  have h1: "end_id (IDPagintor None 0) = Some 0"
    by (simp add: IDPagintor_def)
  have h2: "one_item_fetch 0 () = (Inr [\<lparr>id' = 7\<rparr>], ())"
    by (simp add: one_item_fetch_def)
  show ?thesis
    using h1 h2
      next_page_non_exhausted[where p = "IDPagintor None 0" and c = 0 and fetch = one_item_fetch
        and w = "()" and data = "[\<lparr>id' = 7\<rparr>]" and w' = "()" and log = "[]"]
    by (simp add: exhausted_def)
qed

text \<open>
  Claim C3, at the limit 0. The paginator whose every page is one item, configured with
  the limit 0, does not give the empty list: \<open>aislice\<close> tests the truth value of
  \<open>stop\<close>, which is false for 0 as it is for \<^verbatim>\<open>None\<close>, so the limit 0 is no limit, and
  the whole source is returned. (For a positive limit the claim holds: see
  \<open>flatten_limit_prefix\<close>.)
\<close>

theorem flatten_limit_zero_not_empty:
  "flatten one_item_fetch (IDPagintor (Some 0) 0) ()
     = Some (Inr [\<lparr>id' = 7\<rparr>], (IDPagintor (Some 0) 0)\<lparr>end_id := None\<rparr>, ())
   \<and> flatten one_item_fetch (IDPagintor None 0) ()
     = Some (Inr [\<lparr>id' = 7\<rparr>], (IDPagintor None 0)\<lparr>end_id := None\<rparr>, ())
   \<and> take (nat 0) [\<lparr>id' = 7\<rparr>] = ([] :: unit idmodel_scheme list)"
  by (simp add: flatten_def aiter_def drain.simps aislice.simps iter.simps IDPagintor_def
       next_page_def one_item_fetch_def exhausted_def page_size_def stop_reached_def)

text \<open>
  Claim C6, as stated, fails: the exception raised on an exhausted paginator is an
  instance of the base class \<^verbatim>\<open>Exception\<close>, not of a class of its own, and a fetch
  function that raises \<^verbatim>\<open>Exception("No more pages")\<close> makes \<open>next_page\<close> on a fresh
  paginator raise the very same value.
\<close>

theorem exhausted_error_not_distinguished:
  "\<not> exhausted (IDPagintor None 0)
   \<and> exhausted ((IDPagintor None 0)\<lparr>end_id := None\<rparr>)
   \<and> fst (next_page failing_fetch (IDPagintor None 0) ())
       = fst (next_page failing_fetch ((IDPagintor None 0)\<lparr>end_id := None\<rparr>) ())"
  by (simp add: next_page_def failing_fetch_def IDPagintor_def exhausted_def)

text \<open>
  Claim C6, amended. On an exhausted paginator \<open>next_page\<close> raises
  \<^verbatim>\<open>Exception("No more pages")\<close>, calls the fetch function not at all (the log of calls is
  as it was) and leaves the paginator as it was, hence exhausted. On a paginator that is
  not exhausted, a call that raises leaves the paginator not exhausted. So the exhausted
  flag after the call tells the two failures apart, where the exception may not.
\<close>

theorem next_page_exhausted_raises:
  assumes "exhausted p" and "\<not> exhausted q" and "fst (next_page fetch' q v) = Inl e"
  shows "next_page (logged fetch) p (w, log) = (Inl no_more_pages, p, (w, log))
         \<and> exhausted (fst (snd (next_page (logged fetch) p (w, log))))
         \<and> \<not> exhausted (fst (snd (next_page fetch' q v)))"
proof -
  obtain q' v' where "next_page fetch' q v = (Inl e, q', v')"
    using assms(3) by (cases "next_page fetch' q v") auto
  then have "fst (snd (next_page fetch' q v)) = q"
    using next_page_raise_keeps[of fetch' q v e q' v'] by simp
  then show ?thesis
    using assms(1,2) by (simp add: next_page_exhausted)
qed

theorem next_page_exhausted_raises_witness:
  "exhausted ((IDPagintor None 0)\<lparr>end_id := None\<rparr>)
   \<and> \<not> exhausted (IDPagintor None 0)
   \<and> fst (next_page failing_fetch (IDPagintor None 0) ()) = Inl no_more_pages
   \<and> next_page (logged one_item_fetch) ((IDPagintor None 0)\<lparr>end_id := None\<rparr>) ((), [])
        = (Inl no_more_pages, (IDPagintor None 0)\<lparr>end_id := None\<rparr>, ((), []))
   \<and> \<not> exhausted (fst (snd (next_page failing_fetch (IDPagintor None 0) ())))"
proof -
  have h1: "exhausted ((IDPagintor None 0)\<lparr>end_id := None\<rparr>)"
    by (simp add: exhausted_def)
  have h2: "\<not> exhausted (IDPagintor None 0)"
    by (simp add: exhausted_def IDPagintor_def)
  have h3: "fst (next_page failing_fetch (IDPagintor None 0) ()) = Inl no_more_pages"
    by (simp add: next_page_def failing_fetch_def IDPagintor_def)
  show ?thesis
    using h1 h2 h3 next_page_exhausted_raises[OF h1 h2 h3, of one_item_fetch "()" "[]"]
    by simp
qed

text \<open>
  Claim C7. Exhaustion is terminal. On an exhausted paginator \<open>next_page\<close> raises,
  resuming \<open>_iter\<close> (even one that still holds items of a page fetched before) and
  resuming a fresh iteration fetch nothing, and \<open>flatten\<close> returns the empty list; each
  of them leaves the paginator as it was, so exhausted, and the log of fetch calls as it
  was. Since nothing has changed, the same holds of every later call.
\<close>

theorem exhaustion_is_terminal:
  assumes "exhausted p"
  shows "next_page (logged fetch) p (w, log) = (Inl no_more_pages, p, (w, log))
         \<and> iter (logged fetch) (p, (w, log), buf)
             = (case buf of [] \<Rightarrow> Stop (p, (w, log), [])
                | x # rest \<Rightarrow> Yield x (p, (w, log), rest))
         \<and> aislice (iter (logged fetch)) (limit p) (aiter p (w, log)) = Stop (aiter p (w, log))
         \<and> flatten (logged fetch) p (w, log) = Some (Inr [], p, (w, log))"
  using assms
  by (simp add: next_page_exhausted iter_exhausted aislice_exhausted flatten_exhausted)

theorem exhaustion_is_terminal_witness:
  "exhausted ((IDPagintor (Some 3) 0)\<lparr>end_id := None\<rparr>)
   \<and> next_page (logged one_item_fetch) ((IDPagintor (Some 3) 0)\<lparr>end_id := None\<rparr>) ((), [5])
       = (Inl no_more_pages, (IDPagintor (Some 3) 0)\<lparr>end_id := None\<rparr>, ((), [5]))
   \<and> flatten (logged one_item_fetch) ((IDPagintor (Some 3) 0)\<lparr>end_id := None\<rparr>) ((), [5])
       = Some (Inr [], (IDPagintor (Some 3) 0)\<lparr>end_id := None\<rparr>, ((), [5]))"
proof -
  have h: "exhausted ((IDPagintor (Some 3) 0)\<lparr>end_id := None\<rparr>)"
    by (simp add: exhausted_def)
  show ?thesis
    using h exhaustion_is_terminal[OF h, of one_item_fetch "()" "[5]" "[]"] by simp
qed

text \<open>
  Claim C9. \<open>next_page\<close>, one resumption of the iteration and \<open>flatten\<close> change no
  field of the paginator but \<open>end_id\<close>: the paginator they leave is the one they found,
  with \<open>end_id\<close> updated, so \<open>limit\<close> and \<open>authkey\<close> are as they were
  (\<open>page_size\<close> is a constant of the class, which no method assigns). When
  \<open>next_page\<close> fails on an exhausted paginator, the paginator is left as it was.
\<close>

theorem only_end_id_is_mutated:
  fixes p q :: "'z authkey_paginator_scheme"
  shows "(next_page fetch p w = (r1, p1, w1) \<longrightarrow>
            p1 = p\<lparr>end_id := end_id p1\<rparr> \<and> limit p1 = limit p \<and> authkey p1 = authkey p)
       \<and> (fst (snd (snd (step_state (aislice (iter fetch) stop (y, i, p, w, buf))))) = p2 \<longrightarrow>
            p2 = p\<lparr>end_id := end_id p2\<rparr> \<and> limit p2 = limit p \<and> authkey p2 = authkey p)
       \<and> (flatten fetch p w = Some (r3, p3, w3) \<longrightarrow>
            p3 = p\<lparr>end_id := end_id p3\<rparr> \<and> limit p3 = limit p \<and> authkey p3 = authkey p)
       \<and> (exhausted q \<longrightarrow> next_page fetch q w = (Inl no_more_pages, q, w))"
proof -
  have cfg: "limit p' = limit p \<and> authkey p' = authkey p"
    if "p' = p\<lparr>end_id := end_id p'\<rparr>" for p' :: "'z authkey_paginator_scheme"
  proof -
    have "limit (p\<lparr>end_id := end_id p'\<rparr>) = limit p"
      and "authkey (p\<lparr>end_id := end_id p'\<rparr>) = authkey p"
      by simp_all
    with that show ?thesis by simp
  qed
  have a: "next_page fetch p w = (r1, p1, w1) \<longrightarrow>
            p1 = p\<lparr>end_id := end_id p1\<rparr> \<and> limit p1 = limit p \<and> authkey p1 = authkey p"
    using next_page_frame[of fetch p w r1 p1 w1] cfg[of p1] by blast
  have b: "fst (snd (snd (step_state (aislice (iter fetch) stop (y, i, p, w, buf))))) = p2 \<longrightarrow>
            p2 = p\<lparr>end_id := end_id p2\<rparr> \<and> limit p2 = limit p \<and> authkey p2 = authkey p"
    using aislice_frame[of fetch stop y i p w buf] cfg[of p2] by auto
  have c: "flatten fetch p w = Some (r3, p3, w3) \<longrightarrow>
            p3 = p\<lparr>end_id := end_id p3\<rparr> \<and> limit p3 = limit p \<and> authkey p3 = authkey p"
    using flatten_frame[of fetch p w r3 p3 w3] cfg[of p3] by blast
  have d: "exhausted q \<longrightarrow> next_page fetch q w = (Inl no_more_pages, q, w)"
    by (simp add: next_page_exhausted)
  from a b c d show ?thesis by blast
qed

theorem only_end_id_is_mutated_witness:
  "next_page one_item_fetch (AuthkeyPaginator (Some ''k'') (Some 5) 0) ()
     = (Inr [\<lparr>id' = 7\<rparr>], (AuthkeyPaginator (Some ''k'') (Some 5) 0)\<lparr>end_id := None\<rparr>, ())
   \<and> flatten one_item_fetch (AuthkeyPaginator (Some ''k'') (Some 5) 0) ()
     = Some (Inr [\<lparr>id' = 7\<rparr>], (AuthkeyPaginator (Some ''k'') (Some 5) 0)\<lparr>end_id := None\<rparr>, ())
   \<and> exhausted ((AuthkeyPaginator (Some ''k'') (Some 5) 0)\<lparr>end_id := None\<rparr>)
   \<and> limit ((AuthkeyPaginator (Some ''k'') (Some 5) 0)\<lparr>end_id := None\<rparr>) = Some 5
   \<and> authkey ((AuthkeyPaginator (Some ''k'') (Some 5) 0)\<lparr>end_id := None\<rparr>) = Some ''k''
   \<and> next_page one_item_fetch ((AuthkeyPaginator (Some ''k'') (Some 5) 0)\<lparr>end_id := None\<rparr>) ()
     = (Inl no_more_pages, (AuthkeyPaginator (Some ''k'') (Some 5) 0)\<lparr>end_id := None\<rparr>, ())"
proof -
  let ?p = "AuthkeyPaginator (Some ''k'') (Some 5) 0"
  let ?q = "?p\<lparr>end_id := None\<rparr>"
  have h1: "next_page one_item_fetch ?p () = (Inr [\<lparr>id' = 7\<rparr>], ?q, ())"
    by (simp add: next_page_def one_item_fetch_def AuthkeyPaginator_def page_size_def)
  have h2: "flatten one_item_fetch ?p () = Some (Inr [\<lparr>id' = 7\<rparr>], ?q, ())"
    by (simp add: flatten_def aiter_def drain.simps aislice.simps iter.simps
         AuthkeyPaginator_def next_page_def one_item_fetch_def exhausted_def page_size_def
         stop_reached_def)
  have h3: "exhausted ?q"
    by (simp add: exhausted_def)
  have h4: "limit ?p = Some 5" "authkey ?p = Some ''k''"
    by (simp_all add: AuthkeyPaginator_def)
  show ?thesis
    using h1 h2 h3 h4
      only_end_id_is_mutated[of one_item_fetch ?p "()" "Inr [\<lparr>id' = 7\<rparr>]" ?q "()"
        None None 1 "[]" ?q "Inr [\<lparr>id' = 7\<rparr>]" ?q "()" ?q]
    by simp
qed

section \<open>\<^verbatim>\<open>heapq.merge\<close> and \<^verbatim>\<open>gather\<close>\<close>

declare heapq_merge.simps [simp del]

lemma min_head_Some:
  "min_head k ls = Some i \<Longrightarrow> i < length ls \<and> ls ! i \<noteq> []"
  by (induction k ls arbitrary: i rule: min_head.induct) (auto split: option.splits if_splits)

lemma min_head_None:
  "min_head k ls = None \<Longrightarrow> l \<in> set ls \<Longrightarrow> l = []"
  by (induction k ls rule: min_head.induct) (auto split: option.splits if_splits)

lemma min_head_least:
  "min_head k ls = Some i \<Longrightarrow> j < length ls \<Longrightarrow> ls ! j \<noteq> [] \<Longrightarrow>
   k (hd (ls ! i)) \<le> k (hd (ls ! j))"
proof (induction k ls arbitrary: i j rule: min_head.induct)
  case (1 k)
  then show ?case by simp
next
  case (2 k ls)
  then show ?case by (cases j) auto
next
  case (3 k x xs ls)
  show ?case
  proof (cases "min_head k ls")
    case None
    with 3(2) have i: "i = 0" by simp
    show ?thesis
    proof (cases j)
      case 0
      then show ?thesis using i by simp
    next
      case (Suc j')
      with 3(3,4) None min_head_None[of k ls "ls ! j'"] show ?thesis by auto
    qed
  next
    case (Some m)
    show ?thesis
    proof (cases j)
      case 0
      then show ?thesis using 3(2) Some by (auto split: if_splits)
    next
      case (Suc j')
      with 3(3,4) have "k (hd (ls ! m)) \<le> k (hd (ls ! j'))"
        using 3(1)[OF Some, of j'] by simp
      then show ?thesis using 3(2) Some Suc by (auto split: if_splits)
    qed
  qed
qed

lemma sum_mset_update:
  "i < length ls \<Longrightarrow> ls ! i = x # xs \<Longrightarrow>
   sum_list (map mset (ls[i := xs])) + {#x#} = sum_list (map mset ls)"
proof (induction ls arbitrary: i)
  case Nil
  then show ?case by simp
next
  case (Cons l ls)
  then show ?case by (cases i) (auto simp: add.assoc)
qed

lemma mset_heapq_merge:
  "mset (heapq_merge k ls) = sum_list (map mset ls)"
proof (induction k ls rule: heapq_merge.induct)
  case (1 k ls)
  show ?case
  proof (cases "min_head k ls")
    case None
    then have "\<forall>l \<in> set ls. l = []"
      using min_head_None by blast
    then have "sum_list (map mset ls) = {#}"
      by (induction ls) auto
    then show ?thesis
      using None by (simp add: heapq_merge.simps[of k ls])
  next
    case (Some i)
    from min_head_Some[OF Some] obtain x xs where i: "i < length ls" and l: "ls ! i = x # xs"
      by (cases "ls ! i") auto
    from 1[OF Some] l have "mset (heapq_merge k (ls[i := xs])) = sum_list (map mset (ls[i := xs]))"
      by simp
    then show ?thesis
      using Some l sum_mset_update[OF i l]
      by (simp add: heapq_merge.simps[of k ls])
  qed
qed

lemma set_heapq_merge: "set (heapq_merge k ls) = (\<Union>l \<in> set ls. set l)"
proof -
  have "set (heapq_merge k ls) = set_mset (mset (heapq_merge k ls))"
    by simp
  also have "\<dots> = set_mset (sum_list (map mset ls))"
    by (simp only: mset_heapq_merge)
  also have "\<dots> = (\<Union>l \<in> set ls. set l)"
    by (induction ls) auto
  finally show ?thesis .
qed

lemma sorted_heapq_merge:
  "\<forall>l \<in> set ls. sorted (map k l) \<Longrightarrow> sorted (map k (heapq_merge k ls))"
proof (induction k ls rule: heapq_merge.induct)
  case (1 k ls)
  show ?case
  proof (cases "min_head k ls")
    case None
    then show ?thesis by (simp add: heapq_merge.simps[of k ls])
  next
    case (Some i)
    from min_head_Some[OF Some] obtain x xs where i: "i < length ls" and l: "ls ! i = x # xs"
      by (cases "ls ! i") auto
    have sx: "sorted (map k (x # xs))"
      using 1(2) i l by (metis nth_mem)
    have "\<forall>l \<in> set (ls[i := xs]). sorted (map k l)"
    proof
      fix l' assume "l' \<in> set (ls[i := xs])"
      then have "l' = xs \<or> l' \<in> set ls"
        using set_update_subset_insert[of ls i xs] by auto
      then show "sorted (map k l')"
        using sx 1(2) by auto
    qed
    with 1(1)[OF Some] l have rest: "sorted (map k (heapq_merge k (ls[i := xs])))"
      by simp
    have "k x \<le> k y" if y: "y \<in> set (heapq_merge k (ls[i := xs]))" for y
    proof -
      from y obtain l' where l': "l' \<in> set (ls[i := xs])" "y \<in> set l'"
        by (auto simp: set_heapq_merge)
      then have "l' = xs \<or> l' \<in> set ls"
        using set_update_subset_insert[of ls i xs] by auto
      then show ?thesis
      proof
        assume "l' = xs"
        with sx l'(2) show ?thesis by auto
      next
        assume "l' \<in> set ls"
        then obtain j where j: "j < length ls" "ls ! j = l'"
          by (auto simp: in_set_conv_nth)
        from l'(2) have ne: "ls ! j \<noteq> []" using j by auto
        from min_head_least[OF Some j(1) ne] l have a: "k x \<le> k (hd l')"
          using j by simp
        have "sorted (map k l')"
          using 1(2) \<open>l' \<in> set ls\<close> by blast
        with l'(2) have "k (hd l') \<le> k y"
          by (cases l') auto
        with a show ?thesis by simp
      qed
    qed
    with rest show ?thesis
      using Some l by (simp add: heapq_merge.simps[of k ls])
  qed
qed

lemma first_error_mem: "first_error rs = Some e \<Longrightarrow> Some (Inl e) \<in> set rs"
  by (induction rs rule: first_error.induct) auto

lemma first_error_None: "first_error rs = None \<Longrightarrow> Some (Inl e) \<notin> set rs"
  by (induction rs rule: first_error.induct) auto

lemma gather_values:
  "list_all2 (\<lambda>r v. r = Some (Inr v)) rs vs \<Longrightarrow> gather rs = Some (Inr vs)"
proof (induction rs vs rule: list_all2_induct)
  case Nil
  then show ?case by (simp add: gather_def)
next
  case (Cons r rs v vs)
  then show ?case by (auto simp: gather_def split: option.splits)
qed

lemma gather_error:
  assumes "Some (Inl e) \<in> set rs"
  shows "\<exists>e'. gather rs = Some (Inl e') \<and> Some (Inl e') \<in> set rs"
proof (cases "first_error rs")
  case None
  with assms first_error_None show ?thesis by blast
next
  case (Some e')
  then show ?thesis by (auto simp: gather_def dest: first_error_mem)
qed

lemma slice_to_None: "slice_to None xs = xs"
  by (simp add: slice_to_def)

lemma slice_to_nonneg: "0 \<le> L \<Longrightarrow> slice_to (Some L) xs = take (nat L) xs"
  by (simp add: slice_to_def)

lemma drain_Raise_origin:
  assumes "drain nxt s = Some (Inl e, s')"
  shows "\<exists>s1 s2. nxt s1 = Raise e s2"
proof -
  have "nxt0 = nxt \<longrightarrow> fst res = Inl e \<longrightarrow> (\<exists>s1 s2. nxt s1 = Raise e s2)"
    if "drain nxt0 s0 = Some res" for nxt0 s0 res
    using that
  proof (induction rule: drain.raw_induct[rotated 1, consumes 1])
    case (1 drain' nxt0 s0 res)
    show ?case
    proof (intro impI)
      assume eq: "nxt0 = nxt" and r: "fst res = Inl e"
      show "\<exists>s1 s2. nxt s1 = Raise e s2"
      proof (cases "nxt s0")
        case (Yield x s1)
        with 1(2) eq obtain r1 q1 where y1: "drain' nxt s1 = Some (r1, q1)"
          and "fst res = (case r1 of Inl e \<Rightarrow> Inl e | Inr zs \<Rightarrow> Inr (x # zs))"
          by (auto simp: bind_eq_Some_conv split: prod.splits)
        with r have "r1 = Inl e" by (cases r1) auto
        with 1(1)[OF y1] show ?thesis by simp
      next
        case (Stop s1)
        with 1(2) eq r show ?thesis by auto
      next
        case (Raise e1 s1)
        with 1(2) eq r have "e1 = e" by auto
        with Raise show ?thesis by blast
      qed
    qed
  qed
  from this[OF assms] show ?thesis by simp
qed

lemma iter_Raise_origin:
  "iter fetch (p, w, buf) = Raise e s \<Longrightarrow> \<exists>c v v'. fetch c v = (Inl e, v')"
proof (induction fetch "(p, w, buf)" arbitrary: p w buf rule: iter.induct)
  case (1 fetch p w buf)
  show ?case
  proof (cases buf)
    case Nil
    show ?thesis
    proof (cases "exhausted p")
      case True
      with 1(2) Nil show ?thesis by (simp add: iter_Nil_exhausted)
    next
      case False
      obtain r p' w' where np: "next_page fetch p w = (r, p', w')"
        by (cases "next_page fetch p w") auto
      show ?thesis
      proof (cases r)
        case (Inl e1)
        with 1(2) Nil False np have "e1 = e"
          by (simp add: iter_Nil_raise[of p fetch w e1 p' w'])
        with np Inl False show ?thesis
          by (auto simp: next_page_def exhausted_def split: option.splits prod.splits sum.splits if_splits)
      next
        case (Inr page)
        with 1(2) Nil False np have "iter fetch (p', w', page) = Raise e s"
          by (simp add: iter_Nil_page[of p fetch w page p' w'])
        with 1(1)[OF Nil False np[symmetric] Inr refl] show ?thesis by simp
      qed
    qed
  next
    case (Cons x rest)
    with 1(2) show ?thesis by (simp add: iter_Cons)
  qed
qed

lemma flatten_error_from_fetch:
  fixes fetch :: "('m idmodel_scheme, 'w) fetch" and p :: "'z idpaginator_scheme"
  assumes "flatten fetch p w = Some (Inl e, p', w')"
  shows "\<exists>c v v'. fetch c v = (Inl e, v')"
proof -
  from assms obtain st where "drain (aislice (iter fetch) (limit p)) (aiter p w) = Some (Inl e, st)"
    by (auto simp: flatten_def)
  from drain_Raise_origin[OF this]
  obtain s1 s2 :: "int option \<times> int \<times> 'z idpaginator_scheme \<times> 'w \<times> 'm idmodel_scheme list"
    where r: "aislice (iter fetch) (limit p) s1 = Raise e s2"
    by blast
  obtain y i q v buf where s1: "s1 = (y, i, q, v, buf)"
    by (cases s1) auto
  from r s1 obtain s3 where "iter fetch (q, v, buf) = Raise e s3"
    by (auto simp: aislice.simps split: if_splits step.splits)
  then show ?thesis by (rule iter_Raise_origin)
qed


section \<open>Claims about the merged paginator in eager mode\<close>

text \<open>
  Claim C1. When each of the K children of a merged paginator returns from its own
  \<open>flatten\<close> a list that is sorted ascending by the key, \<open>flatten\<close> with
  \<^verbatim>\<open>lazy=False\<close> collects the K lists first and returns their merge, cut to the limit
  of the merged paginator. The merge is sorted ascending by the key and holds every item
  of every list exactly once. (A child's list is what the child's \<open>flatten\<close> returns
  under the limit the child was built with.)
\<close>

theorem eager_flatten_sorted_merge:
  assumes "list_all2 (\<lambda>c l. \<exists>p' w'. flatten (fst c) (snd c) w = Some (Inr l, p', w'))
             (paginators mp) ls"
    and "\<forall>l \<in> set ls. sorted (map (key' mp) l)"
  shows "merged_flatten False mp w = Some (Inr (slice_to (limit mp) (heapq_merge (key' mp) ls)))
       \<and> sorted (map (key' mp) (heapq_merge (key' mp) ls))
       \<and> mset (heapq_merge (key' mp) ls) = sum_list (map mset ls)
       \<and> (limit mp = None \<longrightarrow>
            slice_to (limit mp) (heapq_merge (key' mp) ls) = heapq_merge (key' mp) ls)
       \<and> (\<forall>L. limit mp = Some L \<and> 0 \<le> L \<longrightarrow>
            slice_to (limit mp) (heapq_merge (key' mp) ls) = take (nat L) (heapq_merge (key' mp) ls))"
proof -
  have "list_all2 (\<lambda>r v. r = Some (Inr v)) (map (child_flatten w) (paginators mp)) ls"
    using assms(1) by (auto simp: list_all2_map1 child_flatten_def elim!: list_all2_mono)
  then have "gather (map (child_flatten w) (paginators mp)) = Some (Inr ls)"
    by (rule gather_values)
  then have "merged_flatten False mp w = Some (Inr (slice_to (limit mp) (heapq_merge (key' mp) ls)))"
    by (simp add: merged_flatten_def flatten_eager_def)
  then show ?thesis
    using sorted_heapq_merge[OF assms(2)]
    by (simp add: mset_heapq_merge slice_to_None slice_to_nonneg)
qed

theorem eager_flatten_sorted_merge_witness:
  "flatten (page_fetch [1, 4, 7]) (AuthkeyPaginator None (Some 4) 0) ()
     = Some (Inr (mk_items [1, 4, 7]), (AuthkeyPaginator None (Some 4) 0)\<lparr>end_id := None\<rparr>, ())
   \<and> flatten (page_fetch [2, 5]) (AuthkeyPaginator None (Some 4) 0) ()
     = Some (Inr (mk_items [2, 5]), (AuthkeyPaginator None (Some 4) 0)\<lparr>end_id := None\<rparr>, ())
   \<and> flatten (page_fetch [3, 6, 8, 9]) (AuthkeyPaginator None (Some 4) 0) ()
     = Some (Inr (mk_items [3, 6, 8, 9]), (AuthkeyPaginator None (Some 4) 0)\<lparr>end_id := None\<rparr>, ())
   \<and> sorted (map id' (mk_items [1, 4, 7])) \<and> sorted (map id' (mk_items [2, 5]))
   \<and> sorted (map id' (mk_items [3, 6, 8, 9]))
   \<and> merged_flatten False
         (scenario [page_fetch [1, 4, 7], page_fetch [2, 5], page_fetch [3, 6, 8, 9]] (Some 4)) ()
       = Some (Inr (mk_items [1, 2, 3, 4]))"
proof -
  let ?p = "AuthkeyPaginator None (Some 4) 0"
  let ?sc = "scenario [page_fetch [1, 4, 7], page_fetch [2, 5], page_fetch [3, 6, 8, 9]] (Some 4)"
  let ?ls = "[mk_items [1, 4, 7], mk_items [2, 5], mk_items [3, 6, 8, 9]]"
  have f: "flatten (page_fetch [1, 4, 7]) ?p () = Some (Inr (mk_items [1, 4, 7]), ?p\<lparr>end_id := None\<rparr>, ())"
    "flatten (page_fetch [2, 5]) ?p () = Some (Inr (mk_items [2, 5]), ?p\<lparr>end_id := None\<rparr>, ())"
    "flatten (page_fetch [3, 6, 8, 9]) ?p ()
       = Some (Inr (mk_items [3, 6, 8, 9]), ?p\<lparr>end_id := None\<rparr>, ())"
    by (simp_all add: flatten_def aiter_def drain.simps aislice.simps iter.simps
         AuthkeyPaginator_def next_page_def page_fetch_def mk_items_def exhausted_def
         page_size_def stop_reached_def)
  have h1: "list_all2 (\<lambda>c l. \<exists>p' w'. flatten (fst c) (snd c) () = Some (Inr l, p', w'))
              (paginators ?sc) ?ls"
    by (simp add: scenario_def f)
  have h2: "\<forall>l \<in> set ?ls. sorted (map (key' ?sc) l)"
    by (simp add: scenario_def mk_items_def)
  have m: "slice_to (limit ?sc) (heapq_merge (key' ?sc) ?ls) = mk_items [1, 2, 3, 4]"
    by (simp add: scenario_def slice_to_def mk_items_def heapq_merge.simps)
  have s: "sorted (map id' (mk_items [1, 4, 7]))" "sorted (map id' (mk_items [2, 5]))"
    "sorted (map id' (mk_items [3, 6, 8, 9]))"
    by (simp_all add: mk_items_def)
  show ?thesis
    using f s eager_flatten_sorted_merge[OF h1 h2] by (simp add: m)
qed

text \<open>
  Claim C5. In eager mode, when the \<open>flatten\<close> of one of the K children raises,
  \<open>flatten\<close> of the merged paginator raises too and returns no list. The exception it
  raises is one that the \<open>flatten\<close> of a child raised, and that exception is, as it
  is, one that the fetch function of that child raised.
\<close>

theorem eager_flatten_fails_fast:
  assumes "c \<in> set (paginators mp)" and "flatten (fst c) (snd c) w = Some (Inl e, p', w')"
  shows "(\<exists>e'. merged_flatten False mp w = Some (Inl e')
            \<and> (\<exists>c' \<in> set (paginators mp). \<exists>q v. flatten (fst c') (snd c') w = Some (Inl e', q, v))
            \<and> (\<exists>c' \<in> set (paginators mp). \<exists>cur v v'. fst c' cur v = (Inl e', v')))
       \<and> (\<forall>xs. merged_flatten False mp w \<noteq> Some (Inr xs))"
proof -
  have "Some (Inl e) \<in> set (map (child_flatten w) (paginators mp))"
    using assms by (force simp: child_flatten_def)
  from gather_error[OF this] obtain e' where
    g: "gather (map (child_flatten w) (paginators mp)) = Some (Inl e')"
    and m: "Some (Inl e') \<in> set (map (child_flatten w) (paginators mp))"
    by blast
  from m obtain c' where c': "c' \<in> set (paginators mp)" "child_flatten w c' = Some (Inl e')"
    by auto
  then obtain q v where f: "flatten (fst c') (snd c') w = Some (Inl e', q, v)"
    by (auto simp: child_flatten_def)
  from flatten_error_from_fetch[OF f] obtain cur v1 v2 where "fst c' cur v1 = (Inl e', v2)"
    by blast
  with g c' f show ?thesis
    by (auto simp: merged_flatten_def flatten_eager_def)
qed

theorem eager_flatten_fails_fast_witness:
  "(failing_fetch, AuthkeyPaginator None None 0)
     \<in> set (paginators (scenario [page_fetch [1, 4, 7], failing_fetch, page_fetch [3, 6, 8, 9]] None))
   \<and> flatten failing_fetch (AuthkeyPaginator None None 0) ()
       = Some (Inl no_more_pages, AuthkeyPaginator None None 0, ())
   \<and> (\<exists>e'. merged_flatten False
          (scenario [page_fetch [1, 4, 7], failing_fetch, page_fetch [3, 6, 8, 9]] None) ()
        = Some (Inl e'))"
proof -
  let ?p = "AuthkeyPaginator None None 0"
  let ?sc = "scenario [page_fetch [1, 4, 7], failing_fetch, page_fetch [3, 6, 8, 9]] None"
  have h1: "(failing_fetch, ?p) \<in> set (paginators ?sc)"
    by (simp add: scenario_def)
  have h2: "flatten failing_fetch ?p () = Some (Inl no_more_pages, ?p, ())"
    by (simp add: flatten_def aiter_def drain.simps aislice.simps iter.simps
         AuthkeyPaginator_def next_page_def failing_fetch_def exhausted_def)
  show ?thesis
    using h1 h2
      eager_flatten_fails_fast[where c = "(failing_fetch, ?p)" and mp = ?sc and w = "()"
        and e = no_more_pages and p' = ?p and w' = "()"]
    by auto
qed

section \<open>Claims about the transactions paginator\<close>

lemma Transaction_init_Inr:
  "Transaction_init V raw rs kd = Inr t \<Longrightarrow>
   \<not> is_ItemTransaction t \<and> transaction.kind t = kd \<and> reason t = rs"
  by (auto simp: Transaction_init_def is_ItemTransaction_def split: option.splits if_splits)

lemma ItemTransaction_init_Inr:
  "ItemTransaction_init V raw rs kd = Inr t \<Longrightarrow>
   is_ItemTransaction t \<and> transaction.kind t = kd \<and> reason t = rs"
  by (auto simp: ItemTransaction_init_def is_ItemTransaction_def split: option.splits if_splits)

lemma make_transaction_Inr:
  assumes "make_transaction V kd reasons raw = Inr t"
  shows "(is_ItemTransaction t \<longleftrightarrow> ''name'' \<in> dom raw) \<and> transaction.kind t = kd
       \<and> (\<exists>r. raw ''reason'' = Some r
              \<and> reason t = (case reasons r of None \<Rightarrow> '''' | Some s \<Rightarrow> s))"
proof -
  from assms obtain r where r: "raw ''reason'' = Some r"
    by (auto simp: make_transaction_def split: option.splits)
  let ?rs = "case reasons r of None \<Rightarrow> '''' | Some s \<Rightarrow> s"
  show ?thesis
  proof (cases "''name'' \<in> dom raw")
    case True
    with assms r have "ItemTransaction_init V raw ?rs kd = Inr t"
      by (auto simp: make_transaction_def Let_def split: if_splits)
    from ItemTransaction_init_Inr[OF this] True r show ?thesis by simp
  next
    case False
    with assms r have "Transaction_init V raw ?rs kd = Inr t"
      by (auto simp: make_transaction_def Let_def split: if_splits)
    from Transaction_init_Inr[OF this] False r show ?thesis by simp
  qed
qed

lemma make_transactions_Inr:
  "make_transactions V kd reasons raws = Inr ts \<Longrightarrow>
   list_all2 (\<lambda>raw t. make_transaction V kd reasons raw = Inr t) raws ts"
  by (induction raws arbitrary: ts) (auto split: sum.splits)

text \<open>
  Claim C10. When \<^verbatim>\<open>Transactions.function\<close> returns, the items it returns are, in
  order, one per raw record of the page; the item of a raw record is an
  \<^verbatim>\<open>ItemTransaction\<close> exactly when the raw record has a field \<open>name\<close> and a plain
  \<^verbatim>\<open>Transaction\<close> otherwise; its \<open>kind\<close> is the kind of the paginator; and its
  \<open>reason\<close> is the entry of the reasons table for the reason id of the raw record, or
  the empty string when the table has no such entry.
\<close>

theorem transactions_function_items:
  assumes "Transactions_function V p (Inr raws) (Inr reasons) = Inr ts"
  shows "list_all2
           (\<lambda>raw t. (is_ItemTransaction t \<longleftrightarrow> ''name'' \<in> dom raw)
              \<and> transaction.kind t = transactions.kind p
              \<and> (\<forall>r. raw ''reason'' = Some r \<longrightarrow>
                    reason t = (case reasons r of None \<Rightarrow> '''' | Some s \<Rightarrow> s)))
           raws ts"
proof -
  from assms have "make_transactions V (transactions.kind p) reasons raws = Inr ts"
    by (simp add: Transactions_function_def)
  from make_transactions_Inr[OF this] show ?thesis
    by (rule list_all2_mono) (auto dest: make_transaction_Inr)
qed

theorem transactions_function_items_witness:
  "Transactions_function strict (Transactions ''en-us'' ''artifact'' None None None 0)
     (Inr [artifact_raw]) (Inr Map.empty) = Inr [sword]
   \<and> is_ItemTransaction sword \<and> ''name'' \<in> dom artifact_raw
   \<and> transaction.kind sword = ''artifact'' \<and> reason sword = ''''"
proof -
  let ?p = "Transactions ''en-us'' ''artifact'' None None None 0"
  have h: "Transactions_function strict ?p (Inr [artifact_raw]) (Inr Map.empty) = Inr [sword]"
    by (simp add: Transactions_function_def Transactions_def make_transaction_def
        ItemTransaction_init_def field_def strict_def artifact_raw_def sword_def)
  have k: "transactions.kind ?p = ''artifact''"
    by (simp add: Transactions_def)
  have r: "artifact_raw ''reason'' = Some (JInt 5)" "''name'' \<in> dom artifact_raw"
    by (simp_all add: artifact_raw_def)
  show ?thesis
    using h k r transactions_function_items[OF h] by simp
qed

section \<open>Claims about the request that \<^verbatim>\<open>flatten\<close> schedules\<close>

text \<open>
  For the merged wish history the claim holds: the request that \<^verbatim>\<open>flatten\<close> schedules
  is the request for the table that \<^verbatim>\<open>WishHistory.function\<close> reads.
\<close>

lemma merged_wish_history_prepare:
  "map (\<lambda>c. WishHistory_lookup (snd c)) (paginators (MergedWishHistory client tm cl lg ak lim e))
       = replicate 4 (flatten_prepare (MergedWishHistory client tm cl lg ak lim e))"
  "map (\<lambda>c. flatten_prepare (MergedWishHistory client tm cl lg ak lim e)
                 \<in> set (WishHistory_calls (snd c) cur))
         (paginators (MergedWishHistory client tm cl lg ak lim e))
       = replicate 4 True"
  by (simp_all add: flatten_prepare_def MergedWishHistory_def WishHistory_lookup_def
        WishHistory_calls_def WishHistory_def numeral_eq_Suc)

text \<open>
  Claim C8, on the merged transactions. \<^verbatim>\<open>MergedTransactions.flatten\<close> schedules the
  request for the banner types, as \<^verbatim>\<open>MergedWishHistory.flatten\<close> does, while the table
  that each of its five children reads in \<^verbatim>\<open>Transactions.function\<close> is the table of
  transaction reasons: the request scheduled is not the request for that table, and it is
  none of the requests that \<^verbatim>\<open>Transactions.function\<close> makes.
\<close>

theorem merged_transactions_prepare:
  "flatten_prepare (MergedTransactions client tm cl lg ak lim e) = Get_banner_types lg ak
   \<and> map (\<lambda>c. Transactions_lookup (snd c)) (paginators (MergedTransactions client tm cl lg ak lim e))
       = replicate 5 (Get_transaction_reasons (lang_or lg cl))
   \<and> flatten_prepare (MergedTransactions client tm cl lg ak lim e)
       \<noteq> Get_transaction_reasons (lang_or lg cl)
   \<and> map (\<lambda>c. flatten_prepare (MergedTransactions client tm cl lg ak lim e)
                 \<in> set (Transactions_calls (snd c) cur))
         (paginators (MergedTransactions client tm cl lg ak lim e))
       = replicate 5 False"
  by (simp add: flatten_prepare_def MergedTransactions_def Transactions_lookup_def
        Transactions_calls_def Transactions_def numeral_eq_Suc)

section \<open>The merged paginator in lazy mode\<close>

lemma drain_Inr_cases:
  assumes "drain nxt s = Some (Inr xs, st)"
  shows "(\<exists>s'. nxt s = Stop s' \<and> xs = [])
       \<or> (\<exists>x s' xs'. nxt s = Yield x s' \<and> xs = x # xs' \<and> drain nxt s' = Some (Inr xs', st))"
proof (cases "nxt s")
  case (Yield x s')
  with assms have "Option.bind (drain nxt s')
            (\<lambda>(r, s''). Some (case r of Inl e \<Rightarrow> Inl e | Inr xs \<Rightarrow> Inr (x # xs), s''))
          = Some (Inr xs, st)"
    by (simp add: drain_Yield[of nxt s x s'])
  then obtain r where "drain nxt s' = Some (r, st)"
    and "(case r of Inl e \<Rightarrow> Inl e | Inr zs \<Rightarrow> Inr (x # zs)) = Inr xs"
    by (auto simp: bind_eq_Some_conv)
  then show ?thesis using Yield by (cases r) auto
next
  case (Stop s')
  with assms drain_Stop[of nxt s s'] show ?thesis by simp
next
  case (Raise e s')
  with assms drain_Raise[of nxt s e s'] show ?thesis by simp
qed

lemma refill_holds:
  "list_all2 holds srcs ls \<Longrightarrow>
   \<exists>srcs'. refill srcs = (None, srcs') \<and> list_all2 holds srcs' ls \<and> (\<forall>src \<in> set srcs'. ready src)"
proof (induction srcs ls rule: list_all2_induct)
  case Nil
  then show ?case by simp
next
  case (Cons src srcs l ls)
  then obtain srcs' where r: "refill srcs = (None, srcs')" and h: "list_all2 holds srcs' ls"
    and rd: "\<forall>src \<in> set srcs'. ready src"
    by blast
  obtain nxt sl where src: "src = (nxt, sl)" by (cases src)
  show ?case
  proof (cases sl)
    case (Empty s)
    with Cons(1) src obtain st where d: "drain nxt s = Some (Inr l, st)" by auto
    from drain_Inr_cases[OF d] show ?thesis
    proof (elim disjE exE conjE)
      fix s' assume "nxt s = Stop s'" "l = []"
      then show ?thesis using src Empty r h rd by simp
    next
      fix x s' xs' assume "nxt s = Yield x s'" "l = x # xs'" "drain nxt s' = Some (Inr xs', st)"
      then show ?thesis using src Empty r h rd by auto
    qed
  next
    case (Pending x s)
    then show ?thesis using src Cons(1) r h rd by simp
  next
    case (Dropped s)
    then show ?thesis using src Cons(1) r h rd by simp
  qed
qed

lemma select_holds:
  assumes "list_all2 holds srcs ls" and "\<forall>src \<in> set srcs. ready src"
  shows "(min_head key ls = None \<longrightarrow> select key srcs = None)
       \<and> (\<forall>i. min_head key ls = Some i \<longrightarrow>
             (\<exists>srcs'. select key srcs = Some (hd (ls ! i), srcs')
                \<and> list_all2 holds srcs' (ls[i := tl (ls ! i)])))"
  using assms
proof (induction srcs ls rule: list_all2_induct)
  case Nil
  then show ?case by simp
next
  case (Cons src srcs l ls)
  then have IH: "(min_head key ls = None \<longrightarrow> select key srcs = None)
       \<and> (\<forall>i. min_head key ls = Some i \<longrightarrow>
             (\<exists>srcs'. select key srcs = Some (hd (ls ! i), srcs')
                \<and> list_all2 holds srcs' (ls[i := tl (ls ! i)])))"
    by simp
  obtain nxt sl where src: "src = (nxt, sl)" by (cases src)
  show ?case
  proof (cases sl)
    case (Empty s)
    with Cons(4) src show ?thesis by simp
  next
    case (Dropped s)
    with Cons(1) src have l: "l = []" by simp
    show ?thesis
    proof (cases "min_head key ls")
      case None
      with IH l src Dropped show ?thesis by simp
    next
      case (Some j)
      with IH obtain srcs' where "select key srcs = Some (hd (ls ! j), srcs')"
        "list_all2 holds srcs' (ls[j := tl (ls ! j)])"
        by blast
      with Some l src Dropped Cons(1) show ?thesis by simp
    qed
  next
    case (Pending x s)
    with Cons(1) src obtain xs' st where l: "l = x # xs'" and d: "drain nxt s = Some (Inr xs', st)"
      by auto
    have e: "holds (nxt, Empty s) xs'" using d by auto
    show ?thesis
    proof (cases "min_head key ls")
      case None
      with IH l src Pending e Cons(2) show ?thesis by simp
    next
      case (Some j)
      with IH obtain srcs' where s': "select key srcs = Some (hd (ls ! j), srcs')"
        "list_all2 holds srcs' (ls[j := tl (ls ! j)])"
        by blast
      show ?thesis
      proof (cases "key (hd (ls ! j)) < key x")
        case True
        with Some l src Pending s' Cons(1) show ?thesis by simp
      next
        case False
        with Some l src Pending s' e Cons(2) show ?thesis by simp
      qed
    qed
  qed
qed

lemma amerge_drain:
  "list_all2 holds srcs ls \<Longrightarrow> \<exists>st. drain (amerge key) srcs = Some (Inr (heapq_merge key ls), st)"
proof (induction key ls arbitrary: srcs rule: heapq_merge.induct)
  case (1 key ls)
  from refill_holds[OF 1(2)] obtain srcs1 where r: "refill srcs = (None, srcs1)"
    and h: "list_all2 holds srcs1 ls" and rd: "\<forall>src \<in> set srcs1. ready src"
    by blast
  note sel = select_holds[OF h rd, of key]
  show ?case
  proof (cases "min_head key ls")
    case None
    with sel have "select key srcs1 = None" by simp
    with r have "amerge key srcs = Stop srcs1" by (simp add: amerge_def)
    with drain_Stop[of "amerge key" srcs srcs1] None show ?thesis
      by (simp add: heapq_merge.simps[of key ls])
  next
    case (Some i)
    with sel obtain srcs2 where s2: "select key srcs1 = Some (hd (ls ! i), srcs2)"
      and h2: "list_all2 holds srcs2 (ls[i := tl (ls ! i)])"
      by blast
    from r s2 have y: "amerge key srcs = Yield (hd (ls ! i)) srcs2" by (simp add: amerge_def)
    from 1(1)[OF Some h2] obtain st where
      "drain (amerge key) srcs2 = Some (Inr (heapq_merge key (ls[i := tl (ls ! i)])), st)"
      by blast
    then show ?thesis
      using Some y
      by (simp add: drain_Yield[of "amerge key" srcs "hd (ls ! i)" srcs2]
            heapq_merge.simps[of key ls])
  qed
qed

lemma drain_aislice_None:
  assumes "drain nxt s = Some (r, s')"
  shows "\<exists>y' i'. drain (aislice nxt None) (y, i, s) = Some (r, (y', i', s'))"
proof -
  have "nxt0 = nxt \<longrightarrow> (\<forall>y i. \<exists>y' i'. drain (aislice nxt None) (y, i, s0)
            = Some (fst res, (y', i', snd res)))"
    if "drain nxt0 s0 = Some res" for nxt0 s0 res
    using that
  proof (induction rule: drain.raw_induct[rotated 1, consumes 1])
    case (1 drain' nxt0 s0 res)
    show ?case
    proof (intro impI allI)
      fix y i
      assume eq: "nxt0 = nxt"
      show "\<exists>y' i'. drain (aislice nxt None) (y, i, s0) = Some (fst res, (y', i', snd res))"
      proof (cases "nxt s0")
        case (Yield x s1)
        have u: "aislice nxt None (y, i, s0) = Yield x (Some i, i + 1, s1)"
          by (simp add: aislice_unlimited_step Yield)
        from 1(2) eq Yield obtain r1 q1 where
          d1: "drain' nxt s1 = Some (r1, q1)"
          and r: "res = (case r1 of Inl e \<Rightarrow> Inl e | Inr zs \<Rightarrow> Inr (x # zs), q1)"
          by (auto simp: bind_eq_Some_conv split: prod.splits)
        from 1(1)[OF d1] eq obtain y' i' where
          "drain (aislice nxt None) (Some i, i + 1, s1) = Some (r1, (y', i', q1))"
          by fastforce
        then show ?thesis
          using u
          by (simp add: drain_Yield[of "aislice nxt None" "(y, i, s0)" x "(Some i, i + 1, s1)"] r)
      next
        case (Stop s1)
        have u: "aislice nxt None (y, i, s0) = Stop (y, i, s1)"
          by (simp add: aislice_unlimited_step Stop)
        from 1(2) eq Stop have "res = (Inr [], s1)" by simp
        then show ?thesis
          using u drain_Stop[of "aislice nxt None" "(y, i, s0)" "(y, i, s1)"] by simp
      next
        case (Raise e s1)
        have u: "aislice nxt None (y, i, s0) = Raise e (y, i, s1)"
          by (simp add: aislice_unlimited_step Raise)
        from 1(2) eq Raise have "res = (Inl e, s1)" by simp
        then show ?thesis
          using u drain_Raise[of "aislice nxt None" "(y, i, s0)" e "(y, i, s1)"] by simp
      qed
    qed
  qed
  from this[OF assms] show ?thesis by simp
qed

lemma aislice_zero: "aislice nxt (Some 0) = aislice nxt None"
  by (rule ext) (auto simp: aislice.simps stop_reached_def split: option.splits)

lemma drain_relimit:
  assumes "drain (aislice (iter fetch) stop) (None, 1, (p, w, [])) = Some (r, st)"
  shows "\<exists>st'. drain (aislice (iter fetch) stop) (None, 1, (p\<lparr>limit := l\<rparr>, w, [])) = Some (r, st')"
proof -
  let ?h = "\<lambda>(q, v, b). (q\<lparr>limit := l\<rparr>, v, b)"
  let ?H = "\<lambda>(y, i, s). (y, i, ?h s)"
  have sim0: "iter fetch (?h s) = map_step id ?h (iter fetch s)" for s
    by (cases s) (simp add: iter_limit)
  have sim: "aislice (iter fetch) stop (?H s) = map_step id ?H (aislice (iter fetch) stop s)" for s
    using aislice_simulation[of "iter fetch" ?h "iter fetch", OF sim0] by (cases s) auto
  from drain_simulation[of "aislice (iter fetch) stop" ?H "aislice (iter fetch) stop", OF sim assms]
  have "drain (aislice (iter fetch) stop) (None, 1, (p\<lparr>limit := l\<rparr>, w, [])) = Some (r, ?H st)"
    by simp
  then show ?thesis by blast
qed

lemma flatten_limit_zero:
  assumes "flatten fetch (p\<lparr>limit := None\<rparr>) w = Some (r, p', w')"
  shows "\<exists>p'' w''. flatten fetch (p\<lparr>limit := Some 0\<rparr>) w = Some (r, p'', w'')"
proof -
  from assms obtain st where
    "drain (aislice (iter fetch) (Some 0)) (None, 1, (p\<lparr>limit := None\<rparr>, w, [])) = Some (r, st)"
    by (auto simp: flatten_def aiter_def aislice_zero)
  from drain_relimit[OF this, of "Some 0"] obtain st' where
    "drain (aislice (iter fetch) (Some 0)) (None, 1, (p\<lparr>limit := Some 0\<rparr>, w, [])) = Some (r, st')"
    by auto
  then show ?thesis
    by (cases st') (auto simp: flatten_def aiter_def)
qed

lemma length_heapq_merge: "length (heapq_merge key ls) = length (concat ls)"
proof -
  have "sum_list (map mset ls) = mset (concat ls)"
    by (induction ls) auto
  then have "mset (heapq_merge key ls) = mset (concat ls)"
    by (simp add: mset_heapq_merge)
  then show ?thesis
    by (rule mset_eq_length)
qed

lemma child_source_holds:
  "flatten (fst c) (snd c) w = Some (Inr l, p', w') \<Longrightarrow> holds (child_source w c) l"
  by (auto simp: child_source_def flatten_def)

lemma flatten_lazy_result:
  assumes "list_all2 (\<lambda>c l. \<exists>p' w'. flatten (fst c) (snd c) w = Some (Inr l, p', w'))
             (paginators mp) ls"
  shows "limit mp = Some L \<Longrightarrow> 0 < L \<Longrightarrow>
           flatten_lazy mp w = Some (Inr (take (nat L) (heapq_merge (key' mp) ls)))"
    and "limit mp = Some 0 \<Longrightarrow> flatten_lazy mp w = Some (Inr (heapq_merge (key' mp) ls))"
proof -
  let ?srcs = "map (child_source w) (paginators mp)"
  have "list_all2 holds ?srcs ls"
    using assms by (auto simp: list_all2_map1 elim!: list_all2_mono dest: child_source_holds)
  from amerge_drain[OF this, of "key' mp"] obtain st where
    "drain (amerge (key' mp)) ?srcs = Some (Inr (heapq_merge (key' mp) ls), st)"
    by blast
  from drain_aislice_None[OF this, of None 1] obtain st1 where
    d: "drain (aislice (amerge (key' mp)) None) (None, 1, ?srcs)
          = Some (Inr (heapq_merge (key' mp) ls), st1)"
    by blast
  show "flatten_lazy mp w = Some (Inr (take (nat L) (heapq_merge (key' mp) ls)))"
    if "limit mp = Some L" "0 < L"
  proof -
    from drain_aislice_prefix[OF d that(2)] obtain st2 where
      "drain (aislice (amerge (key' mp)) (Some L)) (None, 1, ?srcs)
          = Some (Inr (take (nat L) (heapq_merge (key' mp) ls)), st2)"
      by blast
    then show ?thesis using that(1) by (simp add: flatten_lazy_def)
  qed
  show "flatten_lazy mp w = Some (Inr (heapq_merge (key' mp) ls))" if "limit mp = Some 0"
    using d that by (simp add: flatten_lazy_def aislice_zero)
qed

lemma flatten_eager_result:
  assumes "list_all2 (\<lambda>c l. \<exists>p' w'. flatten (fst c) (snd c) w = Some (Inr l, p', w'))
             (paginators mp) ls"
  shows "flatten_eager mp w = Some (Inr (slice_to (limit mp) (heapq_merge (key' mp) ls)))"
proof -
  have "list_all2 (\<lambda>r v. r = Some (Inr v)) (map (child_flatten w) (paginators mp)) ls"
    using assms by (auto simp: list_all2_map1 child_flatten_def elim!: list_all2_mono)
  then have "gather (map (child_flatten w) (paginators mp)) = Some (Inr ls)"
    by (rule gather_values)
  then show ?thesis
    by (simp add: flatten_eager_def)
qed

text \<open>The constructors give every child the limit of the merged paginator.\<close>

lemma constructors_share_limit:
  "\<forall>c \<in> set (paginators (MergedWishHistory client tm cl lg ak lim e)).
     limit (snd c) = limit (MergedWishHistory client tm cl lg ak lim e)"
  "\<forall>c \<in> set (paginators (MergedTransactions client' tm' cl lg ak lim e)).
     limit (snd c) = limit (MergedTransactions client' tm' cl lg ak lim e)"
  "\<forall>c \<in> set (paginators (scenario fs lim)). limit (snd c) = limit (scenario fs lim)"
  by (simp_all add: MergedWishHistory_def WishHistory_def MergedTransactions_def
        Transactions_def scenario_def AuthkeyPaginator_def)

text \<open>
  The scenario of the specification: sources with the keys 1, 4, 7 and 2, 5 and 3, 6, 8, 9
  under the limit 4 give 1, 2, 3, 4 in lazy mode.
\<close>

lemma lazy_flatten_scenario:
  "merged_flatten True
     (scenario [page_fetch [1, 4, 7], page_fetch [2, 5], page_fetch [3, 6, 8, 9]] (Some 4)) ()
   = Some (Inr (mk_items [1, 2, 3, 4]))"
  by (simp add: merged_flatten_def flatten_lazy_def scenario_def child_source_def amerge_def
        flatten_def aiter_def drain.simps aislice.simps iter.simps
        AuthkeyPaginator_def next_page_def page_fetch_def mk_items_def exhausted_def
        page_size_def stop_reached_def)

text \<open>
  Claim C4. Take a merged paginator whose children were given its limit, as the
  constructors give it, and whose K sources are fixed: each child, were it not limited,
  would return a list. When the merged paginator has no limit, or a limit that is at least
  the number of items of all these lists together, \<open>flatten\<close> with \<^verbatim>\<open>lazy=True\<close> and
  \<open>flatten\<close> with \<^verbatim>\<open>lazy=False\<close> return the same list: the merge of the K lists.
\<close>

theorem lazy_flatten_equals_eager:
  assumes unl: "list_all2 (\<lambda>c l. \<exists>p' w'. flatten (fst c) ((snd c)\<lparr>limit := None\<rparr>) w = Some (Inr l, p', w'))
             (paginators mp) ls"
    and same: "\<forall>c \<in> set (paginators mp). limit (snd c) = limit mp"
    and enough: "limit mp = None \<or> (\<exists>L. limit mp = Some L \<and> int (length (concat ls)) \<le> L)"
  shows "merged_flatten True mp w = merged_flatten False mp w
       \<and> merged_flatten False mp w = Some (Inr (heapq_merge (key' mp) ls))"
proof -
  have len: "length l \<le> length (concat ls)" if "l \<in> set ls" for l
    using that by (induction ls) auto
  have act: "list_all2 (\<lambda>c l. \<exists>p' w'. flatten (fst c) (snd c) w = Some (Inr l, p', w'))
             (paginators mp) ls"
    using unl
  proof (rule list.rel_mono_strong)
    fix c l
    assume c: "c \<in> set (paginators mp)" and l: "l \<in> set ls"
      and u: "\<exists>p' w'. flatten (fst c) ((snd c)\<lparr>limit := None\<rparr>) w = Some (Inr l, p', w')"
    from u obtain p' w' where f: "flatten (fst c) ((snd c)\<lparr>limit := None\<rparr>) w = Some (Inr l, p', w')"
      by blast
    from same c have lc: "limit (snd c) = limit mp" by blast
    show "\<exists>p' w'. flatten (fst c) (snd c) w = Some (Inr l, p', w')"
    proof (cases "limit mp")
      case None
      with lc have "(snd c)\<lparr>limit := None\<rparr> = snd c" by simp
      with f show ?thesis by auto
    next
      case (Some L)
      with lc have e: "(snd c)\<lparr>limit := Some L\<rparr> = snd c" by simp
      from enough Some have L: "int (length (concat ls)) \<le> L" by simp
      show ?thesis
      proof (cases "L = 0")
        case True
        from flatten_limit_zero[OF f] e True show ?thesis by auto
      next
        case False
        with L have pos: "0 < L" by simp
        from len[OF l] L have "take (nat L) l = l" by simp
        with flatten_limit_prefix[OF f pos] e show ?thesis by auto
      qed
    qed
  qed
  have eager: "merged_flatten False mp w
                 = Some (Inr (slice_to (limit mp) (heapq_merge (key' mp) ls)))"
    using flatten_eager_result[OF act] by (simp add: merged_flatten_def)
  show ?thesis
  proof (cases "limit mp")
    case None
    then show ?thesis using eager by (simp add: merged_flatten_def slice_to_def)
  next
    case (Some L)
    with enough have L: "int (length (concat ls)) \<le> L" by simp
    then have cut: "take (nat L) (heapq_merge (key' mp) ls) = heapq_merge (key' mp) ls"
      by (simp add: length_heapq_merge)
    have e: "merged_flatten False mp w = Some (Inr (heapq_merge (key' mp) ls))"
      using eager Some L cut by (simp add: slice_to_def)
    have "merged_flatten True mp w = Some (Inr (heapq_merge (key' mp) ls))"
    proof (cases "L = 0")
      case True
      with flatten_lazy_result(2)[OF act] Some show ?thesis
        by (simp add: merged_flatten_def)
    next
      case False
      with L have "0 < L" by simp
      from flatten_lazy_result(1)[OF act Some this] cut Some show ?thesis
        by (simp add: merged_flatten_def)
    qed
    with e show ?thesis by simp
  qed
qed

theorem lazy_flatten_equals_eager_witness:
  "flatten (page_fetch [1, 4, 7]) ((AuthkeyPaginator None (Some 9) 0)\<lparr>limit := None\<rparr>) ()
     = Some (Inr (mk_items [1, 4, 7]), (AuthkeyPaginator None None 0)\<lparr>end_id := None\<rparr>, ())
   \<and> flatten (page_fetch [2, 5]) ((AuthkeyPaginator None (Some 9) 0)\<lparr>limit := None\<rparr>) ()
     = Some (Inr (mk_items [2, 5]), (AuthkeyPaginator None None 0)\<lparr>end_id := None\<rparr>, ())
   \<and> flatten (page_fetch [3, 6, 8, 9]) ((AuthkeyPaginator None (Some 9) 0)\<lparr>limit := None\<rparr>) ()
     = Some (Inr (mk_items [3, 6, 8, 9]), (AuthkeyPaginator None None 0)\<lparr>end_id := None\<rparr>, ())
   \<and> limit (scenario [page_fetch [1, 4, 7], page_fetch [2, 5], page_fetch [3, 6, 8, 9]] (Some 9))
       = Some 9
   \<and> int (length (concat [mk_items [1, 4, 7], mk_items [2, 5], mk_items [3, 6, 8, 9]])) \<le> 9
   \<and> merged_flatten True
         (scenario [page_fetch [1, 4, 7], page_fetch [2, 5], page_fetch [3, 6, 8, 9]] (Some 9)) ()
       = Some (Inr (mk_items [1, 2, 3, 4, 5, 6, 7, 8, 9]))
   \<and> merged_flatten False
         (scenario [page_fetch [1, 4, 7], page_fetch [2, 5], page_fetch [3, 6, 8, 9]] (Some 9)) ()
       = Some (Inr (mk_items [1, 2, 3, 4, 5, 6, 7, 8, 9]))"
proof -
  let ?p = "(AuthkeyPaginator None (Some 9) 0)\<lparr>limit := None\<rparr>"
  let ?q = "(AuthkeyPaginator None None 0)\<lparr>end_id := None\<rparr>"
  let ?sc = "scenario [page_fetch [1, 4, 7], page_fetch [2, 5], page_fetch [3, 6, 8, 9]] (Some 9)"
  let ?ls = "[mk_items [1, 4, 7], mk_items [2, 5], mk_items [3, 6, 8, 9]]"
  have f: "flatten (page_fetch [1, 4, 7]) ?p () = Some (Inr (mk_items [1, 4, 7]), ?q, ())"
    "flatten (page_fetch [2, 5]) ?p () = Some (Inr (mk_items [2, 5]), ?q, ())"
    "flatten (page_fetch [3, 6, 8, 9]) ?p () = Some (Inr (mk_items [3, 6, 8, 9]), ?q, ())"
    by (simp_all add: flatten_def aiter_def drain.simps aislice.simps iter.simps
         AuthkeyPaginator_def next_page_def page_fetch_def mk_items_def exhausted_def
         page_size_def stop_reached_def)
  have h1: "list_all2
              (\<lambda>c l. \<exists>p' w'. flatten (fst c) ((snd c)\<lparr>limit := None\<rparr>) () = Some (Inr l, p', w'))
              (paginators ?sc) ?ls"
    by (simp add: scenario_def f)
  have h2: "\<forall>c \<in> set (paginators ?sc). limit (snd c) = limit ?sc"
    by (simp add: scenario_def AuthkeyPaginator_def)
  have l: "limit ?sc = Some 9" "int (length (concat ?ls)) \<le> 9"
    by (simp_all add: scenario_def mk_items_def)
  then have h3: "limit ?sc = None \<or> (\<exists>L. limit ?sc = Some L \<and> int (length (concat ?ls)) \<le> L)"
    by simp
  have m: "heapq_merge (key' ?sc) ?ls = mk_items [1, 2, 3, 4, 5, 6, 7, 8, 9]"
    by (simp add: scenario_def mk_items_def heapq_merge.simps)
  show ?thesis
    using f l lazy_flatten_equals_eager[OF h1 h2 h3] by (simp add: m)
qed

end
